theory Spec2Isabelle
  imports Main "HOL-Library.List_Lexorder" "HOL-Library.Char_ord" "HOL-Library.Product_Lexorder"
begin

section \<open>Wires\<close>

text \<open>
  Shallow embedding of \<^verbatim>\<open>ps3/circuit2/circuit2.py\<close>. Coordinates are modelled as
  integers; only their order and equality are used by the code. Python exceptions are values
  of \<open>py_error\<close>: an attribute access on \<^verbatim>\<open>None\<close> or on an attribute that was never
  assigned is \<open>AttributeError\<close>, a bare \<^verbatim>\<open>raise\<close> with no active exception is
  \<open>RuntimeError\<close>.
\<close>

datatype py_error = ValueError | AttributeError | RuntimeError

record Wire =
  name :: string
  x1 :: int
  y1 :: int
  x2 :: int
  y2 :: int
  object_id :: nat

text \<open>\<^verbatim>\<open>Wire.next_object_id\<close>: the class attribute \<^verbatim>\<open>Wire._next_id\<close> is passed explicitly.\<close>

definition next_object_id :: "nat \<Rightarrow> nat \<times> nat" where
  "next_object_id next_id = (next_id, next_id + 1)"

definition is_horizontal :: "Wire \<Rightarrow> bool" where
  "is_horizontal w = (y1 w = y2 w)"

definition is_vertical :: "Wire \<Rightarrow> bool" where
  "is_vertical w = (x1 w = x2 w)"

text \<open>
  \<^verbatim>\<open>Wire.__init__\<close>: normalises the endpoints, takes an object id, then raises
  \<^verbatim>\<open>ValueError\<close> unless the wire is horizontal or vertical. The id is consumed before
  the check, so the counter advances on failure too.
\<close>

definition Wire_init :: "string \<Rightarrow> int \<Rightarrow> int \<Rightarrow> int \<Rightarrow> int \<Rightarrow> nat \<Rightarrow> (py_error + Wire) \<times> nat" where
  "Wire_init n a1 b1 a2 b2 next_id =
     (let (a1', a2') = (if a1 > a2 then (a2, a1) else (a1, a2));
          (b1', b2') = (if b1 > b2 then (b2, b1) else (b1, b2));
          (oid, next_id') = next_object_id next_id;
          self = \<lparr>name = n, x1 = a1', y1 = b1', x2 = a2', y2 = b2', object_id = oid\<rparr>
      in if \<not> (is_horizontal self \<or> is_vertical self)
         then (Inl ValueError, next_id')
         else (Inr self, next_id'))"

text \<open>\<^verbatim>\<open>Wire.intersects\<close>.\<close>

definition intersects :: "Wire \<Rightarrow> Wire \<Rightarrow> bool" where
  "intersects self other_wire =
     (if is_horizontal self = is_horizontal other_wire then False
      else let h = (if is_horizontal self then self else other_wire);
               v = (if is_horizontal self then other_wire else self)
           in y1 v \<le> y1 h \<and> y1 h \<le> y2 v \<and> x1 h \<le> x1 v \<and> x1 v \<le> x2 h)"

subsection \<open>Wire layers\<close>

text \<open>
  \<^verbatim>\<open>WireLayer.wires\<close> is a dictionary from names to wires; it is iterated in insertion
  order, so it is kept as an association list.
\<close>

type_synonym WireLayer = "(string \<times> Wire) list"

definition WireLayer_init :: WireLayer where
  "WireLayer_init = []"

definition wires_values :: "WireLayer \<Rightarrow> Wire list" where
  "wires_values layer = map snd layer"

text \<open>
  \<^verbatim>\<open>WireLayer.add_wire\<close>: the result is the exception raised (if any), the layer after the
  call and the id counter after the call.
\<close>

definition add_wire ::
  "WireLayer \<Rightarrow> string \<Rightarrow> int \<Rightarrow> int \<Rightarrow> int \<Rightarrow> int \<Rightarrow> nat \<Rightarrow> py_error option \<times> WireLayer \<times> nat" where
  "add_wire layer n a1 b1 a2 b2 next_id =
     (if n \<in> fst ` set layer then (Some ValueError, layer, next_id)
      else case Wire_init n a1 b1 a2 b2 next_id of
             (Inl e, next_id') \<Rightarrow> (Some e, layer, next_id')
           | (Inr w, next_id') \<Rightarrow> (None, layer @ [(n, w)], next_id'))"

section \<open>Keys of the range index\<close>

record KeyWirePair =
  key :: int
  wire :: "Wire option"
  wire_id :: int

text \<open>\<^verbatim>\<open>KeyWirePair.__init__\<close>, \<^verbatim>\<open>KeyWirePairL.__init__\<close>, \<^verbatim>\<open>KeyWirePairH.__init__\<close>.\<close>

definition KeyWirePair_init :: "int \<Rightarrow> Wire option \<Rightarrow> py_error + KeyWirePair" where
  "KeyWirePair_init k w =
     (case w of None \<Rightarrow> Inl ValueError
      | Some w' \<Rightarrow> Inr \<lparr>key = k, wire = Some w', wire_id = int (object_id w')\<rparr>)"

definition KeyWirePairL :: "int \<Rightarrow> KeyWirePair" where
  "KeyWirePairL k = \<lparr>key = k, wire = None, wire_id = - 1000000000\<rparr>"

definition KeyWirePairH :: "int \<Rightarrow> KeyWirePair" where
  "KeyWirePairH k = \<lparr>key = k, wire = None, wire_id = 1000000000\<rparr>"

text \<open>The comparison methods \<^verbatim>\<open>__lt__\<close>, \<^verbatim>\<open>__le__\<close>, \<^verbatim>\<open>__gt__\<close>, \<^verbatim>\<open>__ge__\<close>,
  \<^verbatim>\<open>__eq__\<close> and \<^verbatim>\<open>__ne__\<close> of \<^verbatim>\<open>KeyWirePair\<close>, inherited by both sentinel classes.\<close>

definition kwp_lt :: "KeyWirePair \<Rightarrow> KeyWirePair \<Rightarrow> bool" where
  "kwp_lt self other = (key self < key other \<or> (key self = key other \<and> wire_id self < wire_id other))"

definition kwp_le :: "KeyWirePair \<Rightarrow> KeyWirePair \<Rightarrow> bool" where
  "kwp_le self other = (key self < key other \<or> (key self = key other \<and> wire_id self \<le> wire_id other))"

definition kwp_gt :: "KeyWirePair \<Rightarrow> KeyWirePair \<Rightarrow> bool" where
  "kwp_gt self other = (key self > key other \<or> (key self = key other \<and> wire_id self > wire_id other))"

definition kwp_ge :: "KeyWirePair \<Rightarrow> KeyWirePair \<Rightarrow> bool" where
  "kwp_ge self other = (key self > key other \<or> (key self = key other \<and> wire_id self \<ge> wire_id other))"

definition kwp_eq :: "KeyWirePair \<Rightarrow> KeyWirePair \<Rightarrow> bool" where
  "kwp_eq self other = (key self = key other \<and> wire_id self = wire_id other)"

definition kwp_ne :: "KeyWirePair \<Rightarrow> KeyWirePair \<Rightarrow> bool" where
  "kwp_ne self other = (key self \<noteq> key other \<and> wire_id self \<noteq> wire_id other)"

section \<open>Sweep events\<close>

text \<open>
  An event is the Python list \<^verbatim>\<open>[x, 0 or 1, object_id, 'add' or 'query', wire]\<close>.
  \<^verbatim>\<open>CrossVerifier._events_from_layer\<close> appends one event per wire to \<^verbatim>\<open>self.events\<close>;
  \<^verbatim>\<open>min\<close> of an empty list raises \<^verbatim>\<open>ValueError\<close>.
\<close>

type_synonym event = "int \<times> nat \<times> nat \<times> string \<times> Wire"

definition py_min :: "int list \<Rightarrow> py_error + int" where
  "py_min xs = (case xs of [] \<Rightarrow> Inl ValueError | y # ys \<Rightarrow> Inr (fold min ys y))"

definition event_of :: "int \<Rightarrow> Wire \<Rightarrow> event" where
  "event_of left_edge w =
     (if is_horizontal w then (left_edge, 0, object_id w, ''add'', w)
      else (x1 w, 1, object_id w, ''query'', w))"

definition events_from_layer :: "event list \<Rightarrow> WireLayer \<Rightarrow> py_error + event list" where
  "events_from_layer events layer =
     (case py_min (map x1 (wires_values layer)) of
        Inl e \<Rightarrow> Inl e
      | Inr left_edge \<Rightarrow> Inr (events @ map (event_of left_edge) (wires_values layer)))"

section \<open>The range index: an AVL tree of linked nodes\<close>

text \<open>
  Nodes are objects that refer to each other (children and parent), and the code updates
  them in place, so the model keeps an explicit store: a map from references to nodes.
  A reference is a natural number; \<open>next_ref\<close> is the next unused one. A node created by
  \<^verbatim>\<open>BSTnode(key)\<close> has no \<^verbatim>\<open>height\<close> and no \<^verbatim>\<open>number_below\<close> attribute until
  \<^verbatim>\<open>update_height\<close> and \<^verbatim>\<open>update_number_below\<close> assign them: both are optional fields,
  and reading an unassigned one is \<open>AttributeError\<close>.
\<close>

type_synonym ref = nat

record BSTnode =
  key :: KeyWirePair
  left :: "ref option"
  right :: "ref option"
  parent :: "ref option"
  height :: "int option"
  number_below :: "int option"

type_synonym store = "ref \<Rightarrow> BSTnode"

text \<open>\<^verbatim>\<open>BSTnode.__init__\<close> and \<^verbatim>\<open>BSTnode.disconnect\<close>.\<close>

definition BSTnode_init :: "KeyWirePair \<Rightarrow> BSTnode" where
  "BSTnode_init key_wire =
     \<lparr>key = key_wire, left = None, right = None, parent = None, height = None, number_below = None\<rparr>"

definition disconnect :: "store \<Rightarrow> ref \<Rightarrow> store" where
  "disconnect h node = h(node := (h node)\<lparr>left := None, right := None, parent := None\<rparr>)"

text \<open>Sequencing of computations that may raise.\<close>

definition attr :: "'a option \<Rightarrow> py_error + 'a" where
  "attr v = (case v of None \<Rightarrow> Inl AttributeError | Some a \<Rightarrow> Inr a)"

definition seq :: "py_error + 'a \<Rightarrow> ('a \<Rightarrow> py_error + 'b) \<Rightarrow> py_error + 'b" where
  "seq m f = (case m of Inl e \<Rightarrow> Inl e | Inr a \<Rightarrow> f a)"

text \<open>The module functions \<^verbatim>\<open>height\<close>, \<^verbatim>\<open>update_height\<close>, \<^verbatim>\<open>number_below\<close> and
  \<^verbatim>\<open>update_number_below\<close>.\<close>

definition height_of :: "store \<Rightarrow> ref option \<Rightarrow> py_error + int" where
  "height_of h node = (case node of None \<Rightarrow> Inr (- 1) | Some p \<Rightarrow> attr (height (h p)))"

definition update_height :: "store \<Rightarrow> ref \<Rightarrow> py_error + store" where
  "update_height h node =
     seq (height_of h (right (h node))) (\<lambda>hr.
     seq (height_of h (left (h node))) (\<lambda>hl.
     Inr (h(node := (h node)\<lparr>height := Some (max hr hl + 1)\<rparr>))))"

definition number_below_of :: "store \<Rightarrow> ref option \<Rightarrow> ref option \<Rightarrow> py_error + int" where
  "number_below_of h r l =
     (case (r, l) of
        (Some rp, Some lp) \<Rightarrow>
          seq (attr (number_below (h lp))) (\<lambda>nl.
          seq (attr (number_below (h rp))) (\<lambda>nr. Inr (nl + nr + 2)))
      | (Some rp, None) \<Rightarrow> seq (attr (number_below (h rp))) (\<lambda>nr. Inr (nr + 1))
      | (None, Some lp) \<Rightarrow> seq (attr (number_below (h lp))) (\<lambda>nl. Inr (nl + 1))
      | (None, None) \<Rightarrow> Inr 0)"

definition update_number_below :: "store \<Rightarrow> ref \<Rightarrow> py_error + store" where
  "update_number_below h node =
     seq (number_below_of h (right (h node)) (left (h node))) (\<lambda>n.
     Inr (h(node := (h node)\<lparr>number_below := Some n\<rparr>)))"

text \<open>
  A \<^verbatim>\<open>RangeIndex\<close> object has the attribute \<^verbatim>\<open>root\<close>, the only one that
  \<^verbatim>\<open>__init__\<close> assigns. The methods \<^verbatim>\<open>list\<close> and \<^verbatim>\<open>count\<close> read an attribute
  \<^verbatim>\<open>data\<close>; it is an optional field, \<open>None\<close> while unassigned. The store and the
  allocation counter travel with the object.
\<close>

record RangeIndex =
  root :: "ref option"
  data :: "KeyWirePair list option"
  heap :: store
  next_ref :: ref

definition RangeIndex_init :: RangeIndex where
  "RangeIndex_init =
     \<lparr>root = None, data = None,
      heap = (\<lambda>_. BSTnode_init (KeyWirePairL 0)), next_ref = 0\<rparr>"

text \<open>\<^verbatim>\<open>RangeIndex.left_rotate\<close> and \<^verbatim>\<open>RangeIndex.right_rotate\<close>. Every read is from the
  store as it is at that statement.\<close>

definition left_rotate :: "RangeIndex \<Rightarrow> ref \<Rightarrow> py_error + RangeIndex" where
  "left_rotate self x =
     (let h = heap self in
      case right (h x) of None \<Rightarrow> Inl AttributeError
      | Some y \<Rightarrow>
          let h1 = h(y := (h y)\<lparr>parent := parent (h x)\<rparr>);
              root1 = (case parent (h1 y) of None \<Rightarrow> Some y | Some p \<Rightarrow> root self);
              h2 = (case parent (h1 y) of None \<Rightarrow> h1
                    | Some p \<Rightarrow>
                        if left (h1 p) = Some x then h1(p := (h1 p)\<lparr>left := Some y\<rparr>)
                        else if right (h1 p) = Some x then h1(p := (h1 p)\<lparr>right := Some y\<rparr>)
                        else h1);
              h3 = h2(x := (h2 x)\<lparr>right := left (h2 y)\<rparr>);
              h4 = (case right (h3 x) of None \<Rightarrow> h3
                    | Some c \<Rightarrow> h3(c := (h3 c)\<lparr>parent := Some x\<rparr>));
              h5 = h4(y := (h4 y)\<lparr>left := Some x\<rparr>);
              h6 = h5(x := (h5 x)\<lparr>parent := Some y\<rparr>)
          in seq (update_height h6 x) (\<lambda>h7.
             seq (update_number_below h7 x) (\<lambda>h8.
             seq (update_height h8 y) (\<lambda>h9.
             seq (update_number_below h9 y) (\<lambda>h10.
             Inr (self\<lparr>root := root1, heap := h10\<rparr>))))))"

definition right_rotate :: "RangeIndex \<Rightarrow> ref \<Rightarrow> py_error + RangeIndex" where
  "right_rotate self y =
     (let h = heap self in
      case left (h y) of None \<Rightarrow> Inl AttributeError
      | Some x \<Rightarrow>
          let h1 = h(x := (h x)\<lparr>parent := parent (h y)\<rparr>);
              root1 = (case parent (h1 x) of None \<Rightarrow> Some x | Some p \<Rightarrow> root self);
              h2 = (case parent (h1 x) of None \<Rightarrow> h1
                    | Some p \<Rightarrow>
                        if left (h1 p) = Some y then h1(p := (h1 p)\<lparr>left := Some x\<rparr>)
                        else if right (h1 p) = Some y then h1(p := (h1 p)\<lparr>right := Some x\<rparr>)
                        else h1);
              h3 = h2(y := (h2 y)\<lparr>left := right (h2 x)\<rparr>);
              h4 = (case left (h3 y) of None \<Rightarrow> h3
                    | Some c \<Rightarrow> h3(c := (h3 c)\<lparr>parent := Some y\<rparr>));
              h5 = h4(x := (h4 x)\<lparr>right := Some y\<rparr>);
              h6 = h5(y := (h5 y)\<lparr>parent := Some x\<rparr>)
          in seq (update_height h6 y) (\<lambda>h7.
             seq (update_number_below h7 y) (\<lambda>h8.
             seq (update_height h8 x) (\<lambda>h9.
             seq (update_number_below h9 x) (\<lambda>h10.
             Inr (self\<lparr>root := root1, heap := h10\<rparr>))))))"

text \<open>
  \<^verbatim>\<open>RangeIndex.rebalance\<close>. \<open>rebalance_node\<close> is the body of the loop for one node, up to
  the assignment \<^verbatim>\<open>node = node.parent\<close>; \<open>rebalance\<close> is the loop, \<open>None\<close> when it does
  not end.
\<close>

definition rebalance_node :: "RangeIndex \<Rightarrow> ref \<Rightarrow> py_error + RangeIndex" where
  "rebalance_node self node =
     seq (update_height (heap self) node) (\<lambda>h1.
     seq (update_number_below h1 node) (\<lambda>h2.
     let self2 = self\<lparr>heap := h2\<rparr> in
     if left (h2 node) \<noteq> None \<or> right (h2 node) \<noteq> None then
       seq (height_of h2 (left (h2 node))) (\<lambda>hl.
       seq (height_of h2 (right (h2 node))) (\<lambda>hr.
       if hl \<ge> 2 + hr then
         seq (attr (left (h2 node))) (\<lambda>l.
         seq (height_of h2 (left (h2 l))) (\<lambda>hll.
         seq (height_of h2 (right (h2 l))) (\<lambda>hlr.
         if hll \<ge> hlr then right_rotate self2 node
         else seq (left_rotate self2 l) (\<lambda>self3. right_rotate self3 node))))
       else
         seq (height_of h2 (right (h2 node))) (\<lambda>hr'.
         seq (height_of h2 (left (h2 node))) (\<lambda>hl'.
         if hr' \<ge> 2 + hl' then
           seq (attr (right (h2 node))) (\<lambda>r.
           seq (height_of h2 (right (h2 r))) (\<lambda>hrr.
           seq (height_of h2 (left (h2 r))) (\<lambda>hrl.
           if hrr \<ge> hrl then left_rotate self2 node
           else seq (right_rotate self2 r) (\<lambda>self3. left_rotate self3 node))))
         else Inr self2))))
     else Inr self2))"

partial_function (option) rebalance :: "RangeIndex \<Rightarrow> ref option \<Rightarrow> (py_error + RangeIndex) option" where
  "rebalance self node =
     (case node of
        None \<Rightarrow> Some (Inr self)
      | Some p \<Rightarrow>
          (case rebalance_node self p of
             Inl e \<Rightarrow> Some (Inl e)
           | Inr self' \<Rightarrow> rebalance self' (parent (heap self' p))))"

text \<open>
  \<^verbatim>\<open>RangeIndex.add\<close>. \<open>add_descend\<close> is the \<^verbatim>\<open>while True\<close> loop that walks down from
  the root and links the new node below a node with a free place.
\<close>

partial_function (option) add_descend :: "store \<Rightarrow> KeyWirePair \<Rightarrow> ref \<Rightarrow> ref \<Rightarrow> store option" where
  "add_descend h k new node =
     (if kwp_lt k (key (h node)) then
        (case left (h node) of
           None \<Rightarrow>
             (let h1 = h(node := (h node)\<lparr>left := Some new\<rparr>)
              in Some (h1(new := (h1 new)\<lparr>parent := Some node\<rparr>)))
         | Some l \<Rightarrow> add_descend h k new l)
      else
        (case right (h node) of
           None \<Rightarrow>
             (let h1 = h(node := (h node)\<lparr>right := Some new\<rparr>)
              in Some (h1(new := (h1 new)\<lparr>parent := Some node\<rparr>)))
         | Some r \<Rightarrow> add_descend h k new r))"

definition add :: "RangeIndex \<Rightarrow> KeyWirePair option \<Rightarrow> (py_error + RangeIndex) option" where
  "add self k =
     (case k of
        None \<Rightarrow> Some (Inl ValueError)
      | Some k' \<Rightarrow>
          (let new = next_ref self;
               h0 = (heap self)(new := BSTnode_init k');
               self0 = self\<lparr>heap := h0, next_ref := new + 1\<rparr>
           in case root self0 of
                None \<Rightarrow> rebalance (self0\<lparr>root := Some new\<rparr>) (Some new)
              | Some r \<Rightarrow>
                  (case add_descend h0 k' new r of
                     None \<Rightarrow> None
                   | Some h1 \<Rightarrow> rebalance (self0\<lparr>heap := h1\<rparr>) (Some new))))"

text \<open>\<^verbatim>\<open>RangeIndex.find\<close>: the node found, or \<open>None\<close>.\<close>

partial_function (option) find_from :: "store \<Rightarrow> KeyWirePair \<Rightarrow> ref option \<Rightarrow> ref option option" where
  "find_from h k node =
     (case node of
        None \<Rightarrow> Some None
      | Some p \<Rightarrow>
          if kwp_eq k (key (h p)) then Some (Some p)
          else if kwp_lt k (key (h p)) then find_from h k (left (h p))
          else find_from h k (right (h p)))"

definition find :: "RangeIndex \<Rightarrow> KeyWirePair \<Rightarrow> ref option option" where
  "find self k = find_from (heap self) k (root self)"

text \<open>
  \<^verbatim>\<open>RangeIndex.pop_node\<close>: the node returned and the index after the call.
  \<^verbatim>\<open>parent = node.parent\<close> is evaluated before the test \<^verbatim>\<open>node is not None\<close>.
\<close>

definition pop_node :: "RangeIndex \<Rightarrow> KeyWirePair \<Rightarrow> (py_error + ref \<times> RangeIndex) option" where
  "pop_node self k =
     (case find self k of
        None \<Rightarrow> None
      | Some None \<Rightarrow> Some (Inl AttributeError)
      | Some (Some node) \<Rightarrow>
          (let h = heap self;
               par = parent (h node);
               h1 = (case parent (h node) of
                       None \<Rightarrow> h
                     | Some p \<Rightarrow> h(p := (h p)\<lparr>left := right (h node)\<rparr>));
               root1 = (case parent (h node) of None \<Rightarrow> right (h node) | Some p \<Rightarrow> root self);
               h2 = (case right (h1 node) of
                       None \<Rightarrow> h1
                     | Some r \<Rightarrow> h1(r := (h1 r)\<lparr>parent := parent (h1 node)\<rparr>))
           in case rebalance (self\<lparr>root := root1, heap := h2\<rparr>) par of
                None \<Rightarrow> None
              | Some (Inl e) \<Rightarrow> Some (Inl e)
              | Some (Inr self') \<Rightarrow>
                  Some (Inr (node, self'\<lparr>heap := disconnect (heap self') node\<rparr>))))"

text \<open>\<^verbatim>\<open>RangeIndex.list\<close> and \<^verbatim>\<open>RangeIndex.count\<close> (the definitions that take effect:
  the ones that iterate over \<^verbatim>\<open>self.data\<close>).\<close>

definition in_range :: "KeyWirePair \<Rightarrow> KeyWirePair \<Rightarrow> KeyWirePair \<Rightarrow> bool" where
  "in_range first_key last_key k = (kwp_le first_key k \<and> kwp_le k last_key)"

definition list_keys :: "RangeIndex \<Rightarrow> KeyWirePair \<Rightarrow> KeyWirePair \<Rightarrow> py_error + KeyWirePair list" where
  "list_keys self first_key last_key =
     seq (attr (data self)) (\<lambda>d. Inr (filter (in_range first_key last_key) d))"

definition count :: "RangeIndex \<Rightarrow> KeyWirePair \<Rightarrow> KeyWirePair \<Rightarrow> py_error + int" where
  "count self first_key last_key =
     seq (attr (data self)) (\<lambda>d.
       Inr (fold (\<lambda>k result. if in_range first_key last_key k then result + 1 else result) d 0))"

declare rebalance.simps [code] add_descend.simps [code] find_from.simps [code]

subsection \<open>Observing an index\<close>

text \<open>
  The in-order traversal of the nodes reachable from a node, at most \<open>fuel\<close> levels deep
  (the store may hold cycles), the keys met on the way, and the cached count of the root
  (\<open>None\<close> for an empty index).
\<close>

fun inorder_from :: "nat \<Rightarrow> store \<Rightarrow> ref option \<Rightarrow> ref list" where
  "inorder_from 0 h node = []"
| "inorder_from (Suc fuel) h node =
     (case node of
        None \<Rightarrow> []
      | Some p \<Rightarrow> inorder_from fuel h (left (h p)) @ [p] @ inorder_from fuel h (right (h p)))"

definition inorder_keys :: "nat \<Rightarrow> RangeIndex \<Rightarrow> KeyWirePair list" where
  "inorder_keys fuel self = map (\<lambda>p. key (heap self p)) (inorder_from fuel (heap self) (root self))"

text \<open>A sequence of \<^verbatim>\<open>add\<close> and \<^verbatim>\<open>pop_node\<close> calls on one index; it stops at the first
  exception.\<close>

datatype index_op = Add KeyWirePair | Pop KeyWirePair

fun run_ops :: "RangeIndex \<Rightarrow> index_op list \<Rightarrow> (py_error + RangeIndex) option" where
  "run_ops self [] = Some (Inr self)"
| "run_ops self (Add k # ops) =
     (case add self (Some k) of
        None \<Rightarrow> None
      | Some (Inl e) \<Rightarrow> Some (Inl e)
      | Some (Inr self') \<Rightarrow> run_ops self' ops)"
| "run_ops self (Pop k # ops) =
     (case pop_node self k of
        None \<Rightarrow> None
      | Some (Inl e) \<Rightarrow> Some (Inl e)
      | Some (Inr (n, self')) \<Rightarrow> run_ops self' ops)"

definition root_number_below :: "RangeIndex \<Rightarrow> int option option" where
  "root_number_below self = map_option (\<lambda>r. number_below (heap self r)) (root self)"

definition observe :: "(RangeIndex \<Rightarrow> 'a) \<Rightarrow> (py_error + RangeIndex) option \<Rightarrow> (py_error + 'a) option" where
  "observe f r = map_option (map_sum id f) r"

text \<open>Keys for examples: the key of the horizontal wire \<open>(0,y)-(10,y)\<close> with object id \<open>i\<close>.\<close>

definition example_wire :: "int \<Rightarrow> nat \<Rightarrow> Wire" where
  "example_wire y i = \<lparr>name = ''w'', x1 = 0, y1 = y, x2 = 10, y2 = y, object_id = i\<rparr>"

definition example_key :: "int \<Rightarrow> nat \<Rightarrow> KeyWirePair" where
  "example_key y i = \<lparr>KeyWirePair.key = y, wire = Some (example_wire y i), wire_id = int i\<rparr>"

section \<open>The sweep\<close>

text \<open>\<^verbatim>\<open>ResultSet.add_crossing\<close>: \<^verbatim>\<open>self.crossings\<close> is a list of sorted pairs of names.\<close>

definition add_crossing :: "string list list \<Rightarrow> Wire \<Rightarrow> Wire \<Rightarrow> string list list" where
  "add_crossing crossings wire1 wire2 = crossings @ [sort [name wire1, name wire2]]"

record CrossVerifier =
  events :: "event list"
  index :: RangeIndex
  result_set :: "string list list"
  performed :: bool

text \<open>
  \<^verbatim>\<open>CrossVerifier.__init__\<close>. \<^verbatim>\<open>self.events.sort()\<close> compares the event lists
  component by component; the object ids of different wires differ, so the order is decided
  by the first three components.
\<close>

definition event_key :: "event \<Rightarrow> int \<times> nat \<times> nat" where
  "event_key e = (case e of (event_x, n, oid, event_type, w) \<Rightarrow> (event_x, n, oid))"

definition CrossVerifier_init :: "WireLayer \<Rightarrow> py_error + CrossVerifier" where
  "CrossVerifier_init layer =
     seq (events_from_layer [] layer) (\<lambda>evs.
     Inr \<lparr>events = sort_key event_key evs, index = RangeIndex_init, result_set = [],
          performed = False\<rparr>)"

text \<open>
  \<^verbatim>\<open>CrossVerifier._compute_crossings\<close>. \<open>cross_wires\<close> is the inner loop over the keys
  that \<^verbatim>\<open>self.index.list\<close> returned; \<open>compute_events\<close> is the loop over the events, with
  the running count. The result is what the call returns or raises, and the verifier after
  the call. When \<^verbatim>\<open>add\<close> raises, the verifier returned holds the index from before that
  call: no method reads the index again, since \<^verbatim>\<open>performed\<close> is set by then.
\<close>

datatype crossing_result = Count int | Crossings "string list list"

fun cross_wires :: "Wire \<Rightarrow> KeyWirePair list \<Rightarrow> py_error + Wire list" where
  "cross_wires w [] = Inr []"
| "cross_wires w (kwp # ks) =
     seq (attr (wire kwp)) (\<lambda>w'.
     seq (cross_wires w ks) (\<lambda>cs.
     Inr (if intersects w w' then w' # cs else cs)))"

fun compute_events ::
  "bool \<Rightarrow> event list \<Rightarrow> CrossVerifier \<Rightarrow> int \<Rightarrow> ((py_error + crossing_result) \<times> CrossVerifier) option" where
  "compute_events count_only [] self result =
     Some (Inr (if count_only then Count result else Crossings (result_set self)), self)"
| "compute_events count_only ((event_x, n, oid, event_type, w) # evs) self result =
     (if event_type = ''add'' then
        (case KeyWirePair_init (y1 w) (Some w) of
           Inl e \<Rightarrow> Some (Inl e, self)
         | Inr k \<Rightarrow>
             (case add (index self) (Some k) of
                None \<Rightarrow> None
              | Some (Inl e) \<Rightarrow> Some (Inl e, self)
              | Some (Inr index') \<Rightarrow>
                  compute_events count_only evs (self\<lparr>index := index'\<rparr>) result))
      else if event_type = ''query'' then
        (case seq (list_keys (index self) (KeyWirePairL (y1 w)) (KeyWirePairH (y2 w)))
                  (cross_wires w) of
           Inl e \<Rightarrow> Some (Inl e, self)
         | Inr cs \<Rightarrow>
             if count_only then compute_events count_only evs self (result + int (length cs))
             else compute_events count_only evs
                    (self\<lparr>result_set := fold (\<lambda>c rs. add_crossing rs w c) cs (result_set self)\<rparr>)
                    result)
      else compute_events count_only evs self result)"

definition compute_crossings ::
  "CrossVerifier \<Rightarrow> bool \<Rightarrow> ((py_error + crossing_result) \<times> CrossVerifier) option" where
  "compute_crossings self count_only = compute_events count_only (events self) self 0"

text \<open>\<^verbatim>\<open>CrossVerifier.count_crossings\<close> and \<^verbatim>\<open>CrossVerifier.wire_crossings\<close>.\<close>

definition count_crossings :: "CrossVerifier \<Rightarrow> ((py_error + crossing_result) \<times> CrossVerifier) option" where
  "count_crossings self =
     (if performed self then Some (Inl RuntimeError, self)
      else compute_crossings (self\<lparr>performed := True\<rparr>) True)"

definition wire_crossings :: "CrossVerifier \<Rightarrow> ((py_error + crossing_result) \<times> CrossVerifier) option" where
  "wire_crossings self =
     (if performed self then Some (Inl RuntimeError, self)
      else compute_crossings (self\<lparr>performed := True\<rparr>) False)"

text \<open>The layer of the first end-to-end scenario: \<open>h\<close> is \<open>(0,0)-(10,0)\<close>, \<open>v\<close> is
  \<open>(5,-5)-(5,5)\<close>.\<close>

definition example_layer :: WireLayer where
  "example_layer =
     [(''h'', \<lparr>name = ''h'', x1 = 0, y1 = 0, x2 = 10, y2 = 0, object_id = 0\<rparr>),
      (''v'', \<lparr>name = ''v'', x1 = 5, y1 = - 5, x2 = 5, y2 = 5, object_id = 1\<rparr>)]"

section \<open>The invariants of the range index\<close>

text \<open>
  The invariants are stated over the tree that the links of the store draw: a \<open>shape\<close> is a
  binary tree of references. \<open>refs\<close> is its in-order sequence, \<open>ht\<close> its height with the
  code's convention (\<open>-1\<close> for no node), \<open>sz\<close> its number of nodes, and \<open>bal\<close> says that
  at every node the heights of the two subtrees differ by at most 1.
\<close>

datatype shape = Tip | Br shape ref shape

fun refs :: "shape \<Rightarrow> ref list" where
  "refs Tip = []"
| "refs (Br l a r) = refs l @ a # refs r"

fun ht :: "shape \<Rightarrow> int" where
  "ht Tip = - 1"
| "ht (Br l a r) = max (ht l) (ht r) + 1"

fun sz :: "shape \<Rightarrow> int" where
  "sz Tip = 0"
| "sz (Br l a r) = sz l + sz r + 1"

fun bal :: "shape \<Rightarrow> bool" where
  "bal Tip = True"
| "bal (Br l a r) = (\<bar>ht l - ht r\<bar> \<le> 1 \<and> bal l \<and> bal r)"

text \<open>
  \<open>tree_ok h par q t\<close>: in the store \<open>h\<close> the nodes reachable from \<open>q\<close> by
  \<^verbatim>\<open>left\<close> and \<^verbatim>\<open>right\<close> are the tree \<open>t\<close>, the parent link of its root is \<open>par\<close> and the
  parent link of every other node is the node above it, every cached \<^verbatim>\<open>height\<close> is the height
  of the node's subtree, and every cached \<^verbatim>\<open>number_below\<close> is the number of nodes of the left
  subtree plus the number of nodes of the right subtree.
\<close>

fun tree_ok :: "store \<Rightarrow> ref option \<Rightarrow> ref option \<Rightarrow> shape \<Rightarrow> bool" where
  "tree_ok h par None Tip = True"
| "tree_ok h par None (Br l a r) = False"
| "tree_ok h par (Some p) Tip = False"
| "tree_ok h par (Some p) (Br l a r) =
     (a = p \<and> parent (h p) = par
      \<and> height (h p) = Some (ht (Br l a r))
      \<and> number_below (h p) = Some (sz l + sz r)
      \<and> tree_ok h (Some p) (left (h p)) l
      \<and> tree_ok h (Some p) (right (h p)) r)"

text \<open>What \<^verbatim>\<open>left_rotate\<close> and \<^verbatim>\<open>right_rotate\<close> do to the node above the rotated one: the
  link that led to \<open>old\<close> leads to \<open>new\<close>.\<close>

definition relink :: "BSTnode \<Rightarrow> ref \<Rightarrow> ref \<Rightarrow> BSTnode" where
  "relink n old new =
     (if left n = Some old then n\<lparr>left := Some new\<rparr>
      else if right n = Some old then n\<lparr>right := Some new\<rparr> else n)"

text \<open>\<open>frame_ok s s' S a q\<close>: what a step of \<^verbatim>\<open>rebalance\<close> at the node \<open>a\<close>, whose subtree
  has the references \<open>S\<close> and ends with the root \<open>q\<close>, leaves unchanged.\<close>

definition frame_ok :: "RangeIndex \<Rightarrow> RangeIndex \<Rightarrow> ref set \<Rightarrow> ref \<Rightarrow> ref \<Rightarrow> bool" where
  "frame_ok s s' S a q =
     (data s' = data s \<and> next_ref s' = next_ref s
      \<and> (\<forall>x. key (heap s' x) = key (heap s x))
      \<and> (\<forall>x. x \<notin> S \<longrightarrow> Some x \<noteq> parent (heap s a) \<longrightarrow> heap s' x = heap s x)
      \<and> (\<forall>p. parent (heap s a) = Some p \<longrightarrow> heap s' p = relink (heap s p) a q)
      \<and> root s' = (case parent (heap s a) of None \<Rightarrow> Some q | Some p \<Rightarrow> root s))"

text \<open>
  The path from a node up to the root, as the loop of \<^verbatim>\<open>rebalance\<close> walks it: a list of
  frames, nearest first. A frame holds the side on which the path enters the ancestor, the
  ancestor, and the tree of the ancestor's other child. \<open>cpar\<close> is the nearest ancestor,
  \<open>lefts\<close> and \<open>rights\<close> are the references before and after the node's subtree in the
  in-order sequence of the whole tree. \<open>ctx h rt c ho C\<close>: in the store \<open>h\<close> with root
  \<open>rt\<close> the node \<open>c\<close> hangs below the path \<open>C\<close>, every other child on the path is in
  order and balanced, and the path was balanced when the subtree at \<open>c\<close> had height \<open>ho\<close>.
\<close>

datatype dir = Lft | Rgt

type_synonym frame = "dir \<times> ref \<times> shape"

fun cpar :: "frame list \<Rightarrow> ref option" where
  "cpar [] = None"
| "cpar ((d, a, sb) # C) = Some a"

fun lefts :: "frame list \<Rightarrow> ref list" where
  "lefts [] = []"
| "lefts ((Lft, a, sb) # C) = lefts C"
| "lefts ((Rgt, a, sb) # C) = lefts C @ refs sb @ [a]"

fun rights :: "frame list \<Rightarrow> ref list" where
  "rights [] = []"
| "rights ((Lft, a, sb) # C) = a # refs sb @ rights C"
| "rights ((Rgt, a, sb) # C) = rights C"

fun ctx :: "store \<Rightarrow> ref option \<Rightarrow> ref \<Rightarrow> int \<Rightarrow> frame list \<Rightarrow> bool" where
  "ctx h rt c ho [] = (rt = Some c)"
| "ctx h rt c ho ((d, a, sb) # C) =
     ((case d of
         Lft \<Rightarrow> left (h a) = Some c \<and> tree_ok h (Some a) (right (h a)) sb
       | Rgt \<Rightarrow> right (h a) = Some c \<and> tree_ok h (Some a) (left (h a)) sb)
      \<and> bal sb \<and> \<bar>ho - ht sb\<bar> \<le> 1 \<and> parent (h a) = cpar C
      \<and> ctx h rt a (max ho (ht sb) + 1) C)"

text \<open>The invariant of an index between two calls, and the pair by which
  \<^verbatim>\<open>KeyWirePair\<close> compares.\<close>

definition index_inv :: "RangeIndex \<Rightarrow> shape \<Rightarrow> bool" where
  "index_inv s T =
     (tree_ok (heap s) None (root s) T \<and> bal T \<and> distinct (refs T)
      \<and> (\<forall>x \<in> set (refs T). x < next_ref s)
      \<and> sorted_wrt kwp_le (map (\<lambda>x. key (heap s x)) (refs T)))"

definition key_id :: "KeyWirePair \<Rightarrow> int \<times> int" where
  "key_id k = (KeyWirePair.key k, wire_id k)"

section \<open>Properties of wires and keys\<close>

lemma fold_min_le: "fold min ys (y::int) \<le> y"
proof (induction ys arbitrary: y)
  case Nil
  show ?case by simp
next
  case (Cons a ys)
  have "fold min ys (min a y) \<le> min a y" by (rule Cons.IH)
  then show ?case by simp
qed

lemma fold_min_lower: "z \<in> set ys \<Longrightarrow> fold min ys (y::int) \<le> z"
proof (induction ys arbitrary: y)
  case Nil
  then show ?case by simp
next
  case (Cons a ys)
  show ?case
  proof (cases "z = a")
    case True
    have "fold min ys (min a y) \<le> min a y" by (rule fold_min_le)
    with True show ?thesis by simp
  next
    case False
    with Cons.prems have "z \<in> set ys" by simp
    then have "fold min ys (min a y) \<le> z" by (rule Cons.IH)
    then show ?thesis by simp
  qed
qed

lemma fold_min_mem: "fold min ys (y::int) \<in> insert y (set ys)"
proof (induction ys arbitrary: y)
  case Nil
  show ?case by simp
next
  case (Cons a ys)
  have "fold min ys (min a y) \<in> insert (min a y) (set ys)" by (rule Cons.IH)
  moreover have "min a y = a \<or> min a y = y" by (simp add: min_def)
  ultimately show ?case by auto
qed

text \<open>
  C4, as the code has it. A wire whose endpoints coincide is both horizontal and vertical
  for the code, so \<open>vertical\<close> has to exclude it: for a horizontal wire \<open>H\<close> and a vertical
  wire \<open>V\<close> that is not also horizontal, \<open>H.intersects(V)\<close> holds exactly when \<open>V\<close>'s x lies
  in the closed x-span of \<open>H\<close> and \<open>H\<close>'s y lies in the closed y-span of \<open>V\<close>; and two wires
  that agree on \<open>is_horizontal\<close> never intersect.
\<close>

theorem intersects_iff:
  "(is_horizontal H \<and> is_vertical V \<and> \<not> is_horizontal V \<longrightarrow>
      intersects H V = (x1 H \<le> x1 V \<and> x1 V \<le> x2 H \<and> y1 V \<le> y1 H \<and> y1 H \<le> y2 V))
   \<and> (is_horizontal A = is_horizontal B \<longrightarrow> \<not> intersects A B)"
  by (auto simp: intersects_def)

theorem intersects_iff_witness:
  "intersects \<lparr>name = ''h'', x1 = 0, y1 = 0, x2 = 10, y2 = 0, object_id = 0\<rparr>
              \<lparr>name = ''v'', x1 = 5, y1 = - 5, x2 = 5, y2 = 5, object_id = 1\<rparr>
   \<and> \<not> intersects \<lparr>name = ''h'', x1 = 0, y1 = 0, x2 = 10, y2 = 0, object_id = 0\<rparr>
                  \<lparr>name = ''g'', x1 = 0, y1 = 0, x2 = 7, y2 = 0, object_id = 2\<rparr>"
  using intersects_iff [of "\<lparr>name = ''h'', x1 = 0, y1 = 0, x2 = 10, y2 = 0, object_id = 0\<rparr>"
      "\<lparr>name = ''v'', x1 = 5, y1 = - 5, x2 = 5, y2 = 5, object_id = 1\<rparr>"
      "\<lparr>name = ''h'', x1 = 0, y1 = 0, x2 = 10, y2 = 0, object_id = 0\<rparr>"
      "\<lparr>name = ''g'', x1 = 0, y1 = 0, x2 = 7, y2 = 0, object_id = 2\<rparr>"]
  by (simp add: is_horizontal_def is_vertical_def)

text \<open>
  C4 as stated fails: the degenerate wire \<open>(5,0)-(5,0)\<close> is vertical for the code, it lies on
  the horizontal wire \<open>(0,0)-(10,0)\<close>, and \<open>intersects\<close> returns false because both wires
  are horizontal for the code.
\<close>

theorem intersects_point_counterexample:
  "is_horizontal \<lparr>name = ''h'', x1 = 0, y1 = 0, x2 = 10, y2 = 0, object_id = 0\<rparr>
   \<and> is_vertical \<lparr>name = ''p'', x1 = 5, y1 = 0, x2 = 5, y2 = 0, object_id = 1\<rparr>
   \<and> (0::int) \<le> 5 \<and> (5::int) \<le> 10 \<and> (0::int) \<le> 0
   \<and> \<not> intersects \<lparr>name = ''h'', x1 = 0, y1 = 0, x2 = 10, y2 = 0, object_id = 0\<rparr>
                  \<lparr>name = ''p'', x1 = 5, y1 = 0, x2 = 5, y2 = 0, object_id = 1\<rparr>"
  by (simp add: intersects_def is_horizontal_def is_vertical_def)

text \<open>
  C6, as the code has it: construction succeeds exactly when at least one of \<open>x1 = x2\<close>,
  \<open>y1 = y2\<close> holds (a degenerate point is accepted); otherwise it raises \<open>ValueError\<close>,
  and \<open>add_wire\<close> then leaves the layer as it was.
\<close>

theorem Wire_init_succeeds_iff:
  "((\<exists>w. fst (Wire_init n a1 b1 a2 b2 c) = Inr w) \<longleftrightarrow> (a1 = a2 \<or> b1 = b2))
   \<and> (a1 \<noteq> a2 \<and> b1 \<noteq> b2 \<longrightarrow>
        fst (Wire_init n a1 b1 a2 b2 c) = Inl ValueError
        \<and> (n \<notin> fst ` set layer \<longrightarrow>
             add_wire layer n a1 b1 a2 b2 c = (Some ValueError, layer, c + 1)))"
  by (auto simp: Wire_init_def add_wire_def next_object_id_def is_horizontal_def
      is_vertical_def Let_def)

theorem Wire_init_succeeds_iff_witness:
  "fst (Wire_init ''d'' 0 0 1 1 0) = Inl ValueError
   \<and> add_wire [] ''d'' 0 0 1 1 0 = (Some ValueError, [], 1)"
  using Wire_init_succeeds_iff [of "''d''" 0 0 1 1 0 "[]"] by simp

text \<open>C6 as stated fails: the degenerate point \<open>(0,0)-(0,0)\<close> is constructed.\<close>

theorem Wire_init_point_counterexample:
  "fst (Wire_init ''p'' 0 0 0 0 0)
     = Inr \<lparr>name = ''p'', x1 = 0, y1 = 0, x2 = 0, y2 = 0, object_id = 0\<rparr>"
  by (simp add: Wire_init_def next_object_id_def is_horizontal_def is_vertical_def)

text \<open>
  What the sentinels do give: the low sentinel is strictly below every real key with the same
  coordinate; the high sentinel is strictly above every real key with the same coordinate
  whose wire id is below 1000000000, the constant the code uses for it.
\<close>

lemma sentinels_bracket:
  "KeyWirePair_init c (Some w) = Inr k \<Longrightarrow>
     kwp_lt (KeyWirePairL c) k \<and> kwp_gt k (KeyWirePairL c)
     \<and> (object_id w < 1000000000 \<longrightarrow> kwp_lt k (KeyWirePairH c) \<and> kwp_gt (KeyWirePairH c) k)"
  by (auto simp: KeyWirePair_init_def KeyWirePairL_def KeyWirePairH_def kwp_lt_def kwp_gt_def)

lemma sentinels_bracket_witness:
  "kwp_lt (KeyWirePairL 3) \<lparr>KeyWirePair.key = 3, wire = Some \<lparr>name = ''h'', x1 = 0, y1 = 3, x2 = 10, y2 = 3, object_id = 7\<rparr>, wire_id = 7\<rparr>
   \<and> kwp_gt (KeyWirePairH 3) \<lparr>KeyWirePair.key = 3, wire = Some \<lparr>name = ''h'', x1 = 0, y1 = 3, x2 = 10, y2 = 3, object_id = 7\<rparr>, wire_id = 7\<rparr>"
  using sentinels_bracket [of 3 "\<lparr>name = ''h'', x1 = 0, y1 = 3, x2 = 10, y2 = 3, object_id = 7\<rparr>"
      "\<lparr>KeyWirePair.key = 3, wire = Some \<lparr>name = ''h'', x1 = 0, y1 = 3, x2 = 10, y2 = 3, object_id = 7\<rparr>, wire_id = 7\<rparr>"]
  by (simp add: KeyWirePair_init_def)

text \<open>
  C7 against the code: for the horizontal wire at \<open>y = 3\<close> whose object id is 1000000000
  the constructor returns a real key, and the high sentinel of the coordinate 3 is not above
  it: \<^verbatim>\<open>KeyWirePairH(3) > k\<close> is false and \<^verbatim>\<open>KeyWirePairH(3) == k\<close> is true, where the
  docstring of \<^verbatim>\<open>KeyWirePairH\<close> says the sentinel is larger than all other keys with the
  same coordinate.
\<close>

theorem sentinel_high_not_above:
  "KeyWirePair_init 3 (Some \<lparr>name = ''h'', x1 = 0, y1 = 3, x2 = 10, y2 = 3, object_id = 1000000000\<rparr>)
     = Inr \<lparr>KeyWirePair.key = 3, wire = Some \<lparr>name = ''h'', x1 = 0, y1 = 3, x2 = 10, y2 = 3, object_id = 1000000000\<rparr>,
            wire_id = 1000000000\<rparr>
   \<and> \<not> kwp_gt (KeyWirePairH 3)
        \<lparr>KeyWirePair.key = 3, wire = Some \<lparr>name = ''h'', x1 = 0, y1 = 3, x2 = 10, y2 = 3, object_id = 1000000000\<rparr>,
         wire_id = 1000000000\<rparr>
   \<and> kwp_eq (KeyWirePairH 3)
        \<lparr>KeyWirePair.key = 3, wire = Some \<lparr>name = ''h'', x1 = 0, y1 = 3, x2 = 10, y2 = 3, object_id = 1000000000\<rparr>,
         wire_id = 1000000000\<rparr>"
  by (simp add: KeyWirePair_init_def KeyWirePairH_def kwp_gt_def kwp_eq_def)

text \<open>
  C10: \<open>a != b\<close> holds exactly when both the coordinates and the wire ids differ, so two
  keys with the same coordinate and different wire ids are neither equal nor unequal.
\<close>

theorem kwp_ne_iff:
  "(kwp_ne a b \<longleftrightarrow> KeyWirePair.key a \<noteq> KeyWirePair.key b \<and> wire_id a \<noteq> wire_id b)
   \<and> (KeyWirePair.key a = KeyWirePair.key b \<and> wire_id a \<noteq> wire_id b \<longrightarrow> \<not> kwp_eq a b \<and> \<not> kwp_ne a b)"
  by (auto simp: kwp_ne_def kwp_eq_def)

theorem kwp_ne_iff_witness:
  "\<not> kwp_eq \<lparr>KeyWirePair.key = 3, wire = None, wire_id = 1\<rparr> \<lparr>KeyWirePair.key = 3, wire = None, wire_id = 2\<rparr>
   \<and> \<not> kwp_ne \<lparr>KeyWirePair.key = 3, wire = None, wire_id = 1\<rparr> \<lparr>KeyWirePair.key = 3, wire = None, wire_id = 2\<rparr>"
  using kwp_ne_iff [of "\<lparr>KeyWirePair.key = 3, wire = None, wire_id = 1\<rparr>" "\<lparr>KeyWirePair.key = 3, wire = None, wire_id = 2\<rparr>"]
  by simp

text \<open>
  C3, as the code has it: every horizontal wire gets an \<open>add\<close> event at the least \<open>x1\<close> of
  all wires of the layer (the layer's left edge), and every wire that is not horizontal gets
  a \<open>query\<close> event at its own \<open>x1\<close>.
\<close>

theorem events_from_layer_spec:
  "events_from_layer [] layer = Inr evs \<Longrightarrow>
     (\<exists>left_edge.
        left_edge \<in> x1 ` set (wires_values layer)
        \<and> (\<forall>w \<in> set (wires_values layer). left_edge \<le> x1 w)
        \<and> evs = map (event_of left_edge) (wires_values layer)
        \<and> (\<forall>w \<in> set (wires_values layer).
              (is_horizontal w \<longrightarrow> (left_edge, 0, object_id w, ''add'', w) \<in> set evs)
              \<and> (\<not> is_horizontal w \<longrightarrow> (x1 w, 1, object_id w, ''query'', w) \<in> set evs)))"
proof -
  assume ev: "events_from_layer [] layer = Inr evs"
  define xs where "xs = map x1 (wires_values layer)"
  from ev obtain y ys where xs: "xs = y # ys"
    by (cases xs) (auto simp: events_from_layer_def py_min_def xs_def)
  define left_edge where "left_edge = fold min ys y"
  from ev xs have evs: "evs = map (event_of left_edge) (wires_values layer)"
    by (auto simp: events_from_layer_def py_min_def xs_def left_edge_def)
  have mem: "left_edge \<in> set xs"
    using fold_min_mem [of ys y] by (simp add: xs left_edge_def)
  have low: "left_edge \<le> z" if "z \<in> set xs" for z
    using that fold_min_le [of ys y] fold_min_lower [of z ys y]
    by (auto simp: xs left_edge_def)
  have ev_in: "event_of left_edge w \<in> set evs" if "w \<in> set (wires_values layer)" for w
    using that by (simp add: evs)
  show ?thesis
  proof (intro exI [of _ left_edge] conjI ballI impI)
    show "left_edge \<in> x1 ` set (wires_values layer)"
      using mem by (simp add: xs_def)
    show "left_edge \<le> x1 w" if "w \<in> set (wires_values layer)" for w
      using that low [of "x1 w"] by (simp add: xs_def)
    show "evs = map (event_of left_edge) (wires_values layer)" by (rule evs)
    show "(left_edge, 0, object_id w, ''add'', w) \<in> set evs"
      if "w \<in> set (wires_values layer)" "is_horizontal w" for w
      using ev_in [OF that(1)] that(2) by (simp add: event_of_def)
    show "(x1 w, 1, object_id w, ''query'', w) \<in> set evs"
      if "w \<in> set (wires_values layer)" "\<not> is_horizontal w" for w
      using ev_in [OF that(1)] that(2) by (simp add: event_of_def)
  qed
qed

theorem events_from_layer_spec_witness:
  "events_from_layer []
     [(''h'', \<lparr>name = ''h'', x1 = 0, y1 = 0, x2 = 10, y2 = 0, object_id = 0\<rparr>),
      (''v'', \<lparr>name = ''v'', x1 = 5, y1 = - 5, x2 = 5, y2 = 5, object_id = 1\<rparr>)]
   = Inr [(0, 0, 0, ''add'', \<lparr>name = ''h'', x1 = 0, y1 = 0, x2 = 10, y2 = 0, object_id = 0\<rparr>),
          (5, 1, 1, ''query'', \<lparr>name = ''v'', x1 = 5, y1 = - 5, x2 = 5, y2 = 5, object_id = 1\<rparr>)]
   \<and> (\<exists>left_edge. left_edge \<le> 0 \<and>
         (left_edge, 0, 0, ''add'', \<lparr>name = ''h'', x1 = 0, y1 = 0, x2 = 10, y2 = 0, object_id = 0\<rparr>)
           \<in> set [(0, 0, 0, ''add'', \<lparr>name = ''h'', x1 = 0, y1 = 0, x2 = 10, y2 = 0, object_id = 0\<rparr>),
                   (5::int, 1::nat, 1::nat, ''query'', \<lparr>name = ''v'', x1 = 5, y1 = - 5, x2 = 5, y2 = 5, object_id = 1\<rparr>)])"
proof -
  let ?h = "\<lparr>name = ''h'', x1 = 0, y1 = 0, x2 = 10, y2 = 0, object_id = 0\<rparr>"
  let ?v = "\<lparr>name = ''v'', x1 = 5, y1 = - 5, x2 = 5, y2 = 5, object_id = 1\<rparr>"
  let ?evs = "[(0::int, 0::nat, 0::nat, ''add'', ?h), (5, 1, 1, ''query'', ?v)]"
  have ev: "events_from_layer [] [(''h'', ?h), (''v'', ?v)] = Inr ?evs"
    by (simp add: events_from_layer_def py_min_def wires_values_def event_of_def
        is_horizontal_def)
  from events_from_layer_spec [OF ev] obtain left_edge where
    le: "\<forall>w \<in> set (wires_values [(''h'', ?h), (''v'', ?v)]). left_edge \<le> x1 w"
    and mem: "\<forall>w \<in> set (wires_values [(''h'', ?h), (''v'', ?v)]).
        (is_horizontal w \<longrightarrow> (left_edge, 0, object_id w, ''add'', w) \<in> set ?evs)
        \<and> (\<not> is_horizontal w \<longrightarrow> (x1 w, 1, object_id w, ''query'', w) \<in> set ?evs)"
    by blast
  from le have "left_edge \<le> 0" by (simp add: wires_values_def)
  moreover from mem have "(left_edge, 0, 0, ''add'', ?h) \<in> set ?evs"
    by (simp add: wires_values_def is_horizontal_def)
  ultimately show ?thesis using ev by blast
qed

text \<open>
  C3 as stated fails: in a layer with the horizontal wires \<open>(0,0)-(10,0)\<close> and
  \<open>(5,1)-(8,1)\<close> the second wire starts at \<open>x = 5\<close>, and its \<open>add\<close> event is at \<open>x = 0\<close>.
\<close>

theorem events_left_edge_counterexample:
  "events_from_layer []
     [(''a'', \<lparr>name = ''a'', x1 = 0, y1 = 0, x2 = 10, y2 = 0, object_id = 0\<rparr>),
      (''b'', \<lparr>name = ''b'', x1 = 5, y1 = 1, x2 = 8, y2 = 1, object_id = 1\<rparr>)]
   = Inr [(0, 0, 0, ''add'', \<lparr>name = ''a'', x1 = 0, y1 = 0, x2 = 10, y2 = 0, object_id = 0\<rparr>),
          (0, 0, 1, ''add'', \<lparr>name = ''b'', x1 = 5, y1 = 1, x2 = 8, y2 = 1, object_id = 1\<rparr>)]"
  by (simp add: events_from_layer_def py_min_def wires_values_def event_of_def is_horizontal_def)

section \<open>Properties of the index operations and of the sweep\<close>

text \<open>What \<^verbatim>\<open>list\<close> and \<^verbatim>\<open>count\<close> compute once \<^verbatim>\<open>data\<close> is assigned: the keys of
  \<^verbatim>\<open>data\<close> in the range, in the order of \<^verbatim>\<open>data\<close>, and their number.\<close>

lemma list_keys_data:
  "data self = Some d \<Longrightarrow>
     list_keys self first_key last_key = Inr (filter (in_range first_key last_key) d)
     \<and> count self first_key last_key = Inr (int (length (filter (in_range first_key last_key) d)))"
proof -
  have "fold (\<lambda>k result. if P k then result + 1 else result) d n = n + int (length (filter P d))"
    for P and n :: int
    by (induction d arbitrary: n) auto
  then show "data self = Some d \<Longrightarrow> ?thesis"
    by (simp add: list_keys_def count_def seq_def attr_def)
qed

text \<open>
  C2 against the code: \<^verbatim>\<open>RangeIndex.__init__\<close> assigns \<^verbatim>\<open>root\<close> only and \<^verbatim>\<open>add\<close>
  never assigns \<^verbatim>\<open>data\<close>, so after \<^verbatim>\<open>add\<close> of the key of a wire at \<open>y = 0\<close> both
  \<^verbatim>\<open>list\<close> and \<^verbatim>\<open>count\<close> over the range of the two sentinels at \<open>0\<close> raise
  \<open>AttributeError\<close> instead of returning that key and the number 1.
\<close>

theorem list_keys_raises:
  "observe (\<lambda>s. (list_keys s (KeyWirePairL 0) (KeyWirePairH 0),
                  count s (KeyWirePairL 0) (KeyWirePairH 0)))
     (run_ops RangeIndex_init [Add (example_key 0 0)])
   = Some (Inr (Inl AttributeError, Inl AttributeError))"
  by code_simp

text \<open>
  C5 against the code: after \<^verbatim>\<open>add\<close> of the keys 2, 1, 3 the index holds 1, 2, 3 in
  order; \<^verbatim>\<open>pop_node\<close> of key 3 leaves 2 and 3 (the node of key 3 is still the right child of
  the root, and key 1 is lost, because the left link of the parent is overwritten); and
  \<^verbatim>\<open>pop_node\<close> of a key that is not stored raises \<open>AttributeError\<close>.
\<close>

theorem pop_node_keeps_node:
  "observe (inorder_keys 3)
     (run_ops RangeIndex_init [Add (example_key 2 0), Add (example_key 1 1), Add (example_key 3 2)])
   = Some (Inr [example_key 1 1, example_key 2 0, example_key 3 2])
   \<and> observe (inorder_keys 3)
     (run_ops RangeIndex_init
        [Add (example_key 2 0), Add (example_key 1 1), Add (example_key 3 2), Pop (example_key 3 2)])
   = Some (Inr [example_key 2 0, example_key 3 2])
   \<and> observe (inorder_keys 3)
     (run_ops RangeIndex_init [Add (example_key 2 0), Pop (example_key 5 1)])
   = Some (Inl AttributeError)"
  by code_simp

text \<open>The single-use guard: once \<^verbatim>\<open>performed\<close> is set, both methods raise at once, and
  the sweep never clears the flag.\<close>

lemma performed_raises:
  "performed self \<Longrightarrow>
     count_crossings self = Some (Inl RuntimeError, self)
     \<and> wire_crossings self = Some (Inl RuntimeError, self)"
  by (simp add: count_crossings_def wire_crossings_def)

lemma compute_events_performed:
  "compute_events c evs self n = Some (r, self') \<Longrightarrow> performed self' = performed self"
proof (induction c evs self n rule: compute_events.induct)
  case (1 count_only self result)
  then show ?case by auto
next
  case (2 count_only event_x n oid event_type w evs self result)
  then show ?case
    by (auto split: if_splits sum.splits option.splits)
qed

text \<open>
  C8 against the code: for the layer with the wires \<open>h\<close> and \<open>v\<close> the sorted events are the
  \<open>add\<close> of \<open>h\<close> and the \<open>query\<close> of \<open>v\<close>, and the first call of \<^verbatim>\<open>count_crossings\<close>
  raises \<open>AttributeError\<close> (from \<^verbatim>\<open>self.index.list\<close>), leaving \<^verbatim>\<open>performed\<close> set.
\<close>

theorem first_call_raises:
  "map_sum id events (CrossVerifier_init example_layer)
     = Inr [(0, 0, 0, ''add'', \<lparr>name = ''h'', x1 = 0, y1 = 0, x2 = 10, y2 = 0, object_id = 0\<rparr>),
            (5, 1, 1, ''query'', \<lparr>name = ''v'', x1 = 5, y1 = - 5, x2 = 5, y2 = 5, object_id = 1\<rparr>)]
   \<and> (case CrossVerifier_init example_layer of
         Inl e \<Rightarrow> None
       | Inr v \<Rightarrow> map_option (\<lambda>(r, v'). (r, performed v')) (count_crossings v))
      = Some (Inl AttributeError, True)"
  by code_simp

text \<open>
  C9 against the code: for the same layer, whose two wires cross, \<^verbatim>\<open>wire_crossings\<close>
  raises \<open>AttributeError\<close> instead of returning the one pair \<open>(h, v)\<close>.
\<close>

theorem wire_crossings_raises:
  "(case CrossVerifier_init example_layer of
      Inl e \<Rightarrow> None
    | Inr v \<Rightarrow> map_option fst (wire_crossings v))
   = Some (Inl AttributeError)"
  by code_simp

section \<open>The invariants under add\<close>

lemma tree_ok_None: "tree_ok h par None t = (t = Tip)"
  by (cases t) simp_all

lemma tree_ok_Tip: "tree_ok h par q Tip = (q = None)"
  by (cases q) simp_all

lemma ht_ge: "- 1 \<le> ht t"
  by (induction t) auto

lemma sz_ge: "0 \<le> sz t"
  by (induction t) auto

lemma height_of_tree_ok: "tree_ok h par q t \<Longrightarrow> height_of h q = Inr (ht t)"
  by (cases q; cases t) (auto simp: height_of_def attr_def)

lemma number_below_of_tree_ok:
  "tree_ok h pl ql l \<Longrightarrow> tree_ok h pr qr r \<Longrightarrow> number_below_of h qr ql = Inr (sz l + sz r)"
  by (cases ql; cases qr; cases l; cases r) (auto simp: number_below_of_def attr_def seq_def)

lemma tree_ok_cong: "(\<forall>q \<in> set (refs t). h' q = h q) \<Longrightarrow> tree_ok h' par q t = tree_ok h par q t"
proof (induction t arbitrary: par q)
  case Tip
  show ?case by (simp add: tree_ok_Tip)
next
  case (Br l a r)
  show ?case
  proof (cases q)
    case None
    then show ?thesis by simp
  next
    case (Some p)
    show ?thesis
    proof (cases "a = p")
      case True
      from Br.prems have hp: "h' p = h p" using True by simp
      from Br.prems have "\<forall>q \<in> set (refs l). h' q = h q" "\<forall>q \<in> set (refs r). h' q = h q" by simp_all
      then have "tree_ok h' (Some p) (left (h p)) l = tree_ok h (Some p) (left (h p)) l"
        "tree_ok h' (Some p) (right (h p)) r = tree_ok h (Some p) (right (h p)) r"
        using Br.IH by blast+
      with Some True hp show ?thesis by simp
    next
      case False
      with Some show ?thesis by simp
    qed
  qed
qed

lemma tree_ok_root: "tree_ok h par (Some p) t \<Longrightarrow> p \<in> set (refs t)"
  by (cases t) auto

lemma tree_ok_reparent:
  assumes "tree_ok h par (Some p) t" and "distinct (refs t)"
  shows "tree_ok (h(p := (h p)\<lparr>parent := par'\<rparr>)) par' (Some p) t"
proof (cases t)
  case Tip
  with assms show ?thesis by simp
next
  case (Br l a r)
  with assms have a: "a = p" and pl: "p \<notin> set (refs l)" and pr: "p \<notin> set (refs r)" by auto
  let ?h = "h(p := (h p)\<lparr>parent := par'\<rparr>)"
  have "tree_ok ?h (Some p) (left (h p)) l = tree_ok h (Some p) (left (h p)) l"
    by (rule tree_ok_cong) (use pl in auto)
  moreover have "tree_ok ?h (Some p) (right (h p)) r = tree_ok h (Some p) (right (h p)) r"
    by (rule tree_ok_cong) (use pr in auto)
  ultimately show ?thesis using assms Br by simp
qed

text \<open>Both cached attributes of a node whose children are in order.\<close>

lemma cache_update:
  assumes l: "tree_ok h (Some a) (left (h a)) l" and r: "tree_ok h (Some a) (right (h a)) r"
    and al: "a \<notin> set (refs l)" and ar: "a \<notin> set (refs r)"
  defines "h' \<equiv> h(a := (h a)\<lparr>height := Some (ht (Br l a r)), number_below := Some (sz l + sz r)\<rparr>)"
  shows "seq (update_height h a) (\<lambda>h1. seq (update_number_below h1 a) F) = F h'"
    and "tree_ok h' (parent (h a)) (Some a) (Br l a r)"
proof -
  have uh: "update_height h a = Inr (h(a := (h a)\<lparr>height := Some (ht (Br l a r))\<rparr>))"
    using height_of_tree_ok [OF l] height_of_tree_ok [OF r]
    by (simp add: update_height_def seq_def max.commute)
  let ?h1 = "h(a := (h a)\<lparr>height := Some (ht (Br l a r))\<rparr>)"
  have l1: "tree_ok ?h1 (Some a) (left (h a)) l"
    using l tree_ok_cong [of l ?h1 h "Some a" "left (h a)"] al by simp
  have r1: "tree_ok ?h1 (Some a) (right (h a)) r"
    using r tree_ok_cong [of r ?h1 h "Some a" "right (h a)"] ar by simp
  have un: "update_number_below ?h1 a = Inr h'"
    using number_below_of_tree_ok [OF l1 r1]
    by (simp add: update_number_below_def seq_def h'_def)
  show "seq (update_height h a) (\<lambda>h1. seq (update_number_below h1 a) F) = F h'"
    using un by (simp add: uh seq_def)
  have l2: "tree_ok h' (Some a) (left (h a)) l"
    using l tree_ok_cong [of l h' h "Some a" "left (h a)"] al by (simp add: h'_def)
  have r2: "tree_ok h' (Some a) (right (h a)) r"
    using r tree_ok_cong [of r h' h "Some a" "right (h a)"] ar by (simp add: h'_def)
  show "tree_ok h' (parent (h a)) (Some a) (Br l a r)"
    using l2 r2 by (simp add: h'_def)
qed

lemma right_rotate_tree_ok:
  assumes hy: "left (heap self y) = Some x"
    and wx: "tree_ok (heap self) (Some y) (Some x) (Br A x B)"
    and wc: "tree_ok (heap self) (Some y) (right (heap self y)) C"
    and dist: "distinct (refs A @ x # refs B @ y # refs C)"
    and link: "\<And>p. parent (heap self y) = Some p \<Longrightarrow> p \<notin> set (refs A @ x # refs B @ y # refs C)"
  shows "\<exists>self'. right_rotate self y = Inr self'
      \<and> tree_ok (heap self') (parent (heap self y)) (Some x) (Br A x (Br B y C))
      \<and> root self' = (case parent (heap self y) of None \<Rightarrow> Some x | Some p \<Rightarrow> root self)
      \<and> data self' = data self \<and> next_ref self' = next_ref self
      \<and> (\<forall>q. key (heap self' q) = key (heap self q))
      \<and> (\<forall>q. q \<notin> set (refs A @ x # refs B @ y # refs C) \<longrightarrow> Some q \<noteq> parent (heap self y)
            \<longrightarrow> heap self' q = heap self q)
      \<and> (\<forall>p. parent (heap self y) = Some p \<longrightarrow> heap self' p = relink (heap self p) y x)"
proof -
  define h where "h = heap self"
  define par where "par = parent (h y)"
  define bq where "bq = right (h x)"
  define h1 where "h1 = h(x := (h x)\<lparr>parent := parent (h y)\<rparr>)"
  define h2 where "h2 = (case parent (h1 x) of None \<Rightarrow> h1
                    | Some p \<Rightarrow>
                        if left (h1 p) = Some y then h1(p := (h1 p)\<lparr>left := Some x\<rparr>)
                        else if right (h1 p) = Some y then h1(p := (h1 p)\<lparr>right := Some x\<rparr>)
                        else h1)"
  define h3 where "h3 = h2(y := (h2 y)\<lparr>left := right (h2 x)\<rparr>)"
  define h4 where "h4 = (case left (h3 y) of None \<Rightarrow> h3
                    | Some c \<Rightarrow> h3(c := (h3 c)\<lparr>parent := Some y\<rparr>))"
  define h5 where "h5 = h4(x := (h4 x)\<lparr>right := Some y\<rparr>)"
  define h6 where "h6 = h5(y := (h5 y)\<lparr>parent := Some x\<rparr>)"
  define h8 where "h8 = h6(y := (h6 y)\<lparr>height := Some (ht (Br B y C)), number_below := Some (sz B + sz C)\<rparr>)"
  define h10 where "h10 = h8(x := (h8 x)\<lparr>height := Some (ht (Br A x (Br B y C))),
      number_below := Some (sz A + sz (Br B y C))\<rparr>)"
  define root1 where "root1 = (case parent (h1 x) of None \<Rightarrow> Some x | Some p \<Rightarrow> root self)"
  have rot0: "right_rotate self y =
        seq (update_height h6 y) (\<lambda>h7. seq (update_number_below h7 y) (\<lambda>h8.
        seq (update_height h8 x) (\<lambda>h9. seq (update_number_below h9 x) (\<lambda>h10.
          Inr (self\<lparr>root := root1, heap := h10\<rparr>)))))"
    unfolding right_rotate_def Let_def h6_def h5_def h4_def h3_def h2_def h1_def root1_def h_def
    using hy by simp
  from wx have wa: "tree_ok h (Some x) (left (h x)) A" and wb: "tree_ok h (Some x) bq B"
    by (simp_all add: h_def bq_def)
  from wc have wc': "tree_ok h (Some y) (right (h y)) C" by (simp add: h_def)
  from dist have xy: "x \<noteq> y" by auto
  have pn: "p \<noteq> x" "p \<noteq> y" "p \<notin> set (refs A)" "p \<notin> set (refs B)" "p \<notin> set (refs C)"
    if "par = Some p" for p
    using link [of p] that by (auto simp: par_def h_def)
  have bB: "b \<in> set (refs B)" if "bq = Some b" for b
    using wb that tree_ok_root by simp
  have bn: "b \<noteq> x" "b \<noteq> y" "b \<notin> set (refs A)" "b \<notin> set (refs C)" "par \<noteq> Some b"
    if "bq = Some b" for b
    using bB [OF that] dist pn(4) by auto
  \<comment> \<open>the store after the pointer updates\<close>
  have p1: "parent (h1 x) = par" by (simp add: h1_def par_def)
  have h1': "h1 = h(x := (h x)\<lparr>parent := par\<rparr>)" by (simp add: h1_def par_def)
  have h2': "h2 = (case par of None \<Rightarrow> h1 | Some p \<Rightarrow> h1(p := relink (h1 p) y x))"
    by (cases par) (auto simp: h2_def p1 relink_def)
  have r2: "right (h2 x) = bq"
    using pn(1) by (auto simp: h2' h1' bq_def split: option.splits)
  have h3': "h3 = h2(y := (h2 y)\<lparr>left := bq\<rparr>)" by (simp add: h3_def r2)
  have h4': "h4 = (case bq of None \<Rightarrow> h3 | Some b \<Rightarrow> h3(b := (h3 b)\<lparr>parent := Some y\<rparr>))"
    by (simp add: h4_def h3')
  note defs = h1' h2' h3' h4' h5_def h6_def
  have root1: "root1 = (case par of None \<Rightarrow> Some x | Some p \<Rightarrow> root self)"
    by (simp add: root1_def p1)
  have same: "h6 q = h q" if "q \<noteq> x" "q \<noteq> y" "bq \<noteq> Some q" "par \<noteq> Some q" for q
    using that by (auto simp: defs split: option.splits)
  have fx: "left (h6 x) = left (h x)" "right (h6 x) = Some y" "parent (h6 x) = par"
    using xy pn(1) bn(1) by (auto simp: defs split: option.splits)
  have fy: "left (h6 y) = bq" "right (h6 y) = right (h y)" "parent (h6 y) = Some x"
    using xy pn(2) bn(2) by (auto simp: defs split: option.splits)
  have fb: "h6 b = (h b)\<lparr>parent := Some y\<rparr>" if "bq = Some b" for b
    using that bn [OF that] by (auto simp: defs split: option.splits)
  have fp: "h6 p = relink (h p) y x" if "par = Some p" for p
    using that pn [OF that] bB by (auto simp: defs split: option.splits)
  have kk: "key (h6 q) = key (h q)" for q
    by (auto simp: defs relink_def split: option.splits)
  have A6: "tree_ok h6 (Some x) (left (h6 x)) A"
  proof -
    have "\<forall>q \<in> set (refs A). h6 q = h q"
      using dist bn(3) pn(3) by (auto intro!: same)
    from tree_ok_cong [OF this] wa fx show ?thesis by simp
  qed
  have C6: "tree_ok h6 (Some y) (right (h6 y)) C"
  proof -
    have "\<forall>q \<in> set (refs C). h6 q = h q"
      using dist bn(4) pn(5) by (auto intro!: same)
    from tree_ok_cong [OF this] wc' fy show ?thesis by simp
  qed
  have B6: "tree_ok h6 (Some y) (left (h6 y)) B"
  proof (cases bq)
    case None
    with wb show ?thesis by (simp add: fy tree_ok_None)
  next
    case (Some b)
    let ?hb = "h(b := (h b)\<lparr>parent := Some y\<rparr>)"
    from dist have dB: "distinct (refs B)" by simp
    from wb Some have "tree_ok ?hb (Some y) (Some b) B"
      using tree_ok_reparent [OF _ dB] by simp
    moreover have "\<forall>q \<in> set (refs B). h6 q = ?hb q"
    proof
      fix q assume q: "q \<in> set (refs B)"
      show "h6 q = ?hb q"
      proof (cases "q = b")
        case True
        then show ?thesis using fb [OF Some] by simp
      next
        case False
        with q dist pn(4) Some have "h6 q = h q" by (auto intro!: same)
        with False show ?thesis by simp
      qed
    qed
    ultimately show ?thesis using tree_ok_cong [of B h6 ?hb "Some y" "Some b"] Some fy by simp
  qed
  \<comment> \<open>the two cache updates\<close>
  have yB: "y \<notin> set (refs B)" and yC: "y \<notin> set (refs C)" and yA: "y \<notin> set (refs A)"
    and xA: "x \<notin> set (refs A)" and xB: "x \<notin> set (refs B)" and xC: "x \<notin> set (refs C)"
    using dist by auto
  note cy = cache_update [OF B6 C6 yB yC, folded h8_def]
  have Y8: "tree_ok h8 (Some x) (right (h8 x)) (Br B y C)"
    using cy(2) fx fy xy by (simp add: h8_def)
  have A8: "tree_ok h8 (Some x) (left (h8 x)) A"
  proof -
    have "tree_ok h8 (Some x) (left (h6 x)) A = tree_ok h6 (Some x) (left (h6 x)) A"
      by (rule tree_ok_cong) (use yA in \<open>simp add: h8_def\<close>)
    moreover have "left (h8 x) = left (h6 x)" using xy by (simp add: h8_def)
    ultimately show ?thesis using A6 by simp
  qed
  have xY: "x \<notin> set (refs (Br B y C))" using xB xC xy by simp
  note cx = cache_update [OF A8 Y8 xA xY, folded h10_def]
  have p8: "parent (h8 x) = par" using fx xy by (simp add: h8_def)
  have rot: "right_rotate self y = Inr (self\<lparr>root := root1, heap := h10\<rparr>)"
    by (simp add: rot0 cy(1) cx(1))
  have "tree_ok h10 par (Some x) (Br A x (Br B y C))" using cx(2) p8 by simp
  moreover have "heap (self\<lparr>root := root1, heap := h10\<rparr>) q = heap self q"
    if "q \<notin> set (refs A @ x # refs B @ y # refs C)" "Some q \<noteq> par" for q
  proof -
    from that bB have "h6 q = h q" by (intro same) auto
    with that show ?thesis by (simp add: h10_def h8_def h_def)
  qed
  moreover have "heap (self\<lparr>root := root1, heap := h10\<rparr>) p = relink (heap self p) y x"
    if "par = Some p" for p
    using fp [OF that] pn [OF that] by (simp add: h10_def h8_def h_def)
  moreover have "key (heap (self\<lparr>root := root1, heap := h10\<rparr>) q) = key (heap self q)" for q
    using kk [of x] kk [of y] kk [of q] by (simp add: h10_def h8_def h_def)
  ultimately show ?thesis
    unfolding rot by (simp add: root1 par_def h_def)
qed

lemma left_rotate_tree_ok:
  assumes hx: "right (heap self x) = Some y"
    and wy: "tree_ok (heap self) (Some x) (Some y) (Br B y C)"
    and wa: "tree_ok (heap self) (Some x) (left (heap self x)) A"
    and dist: "distinct (refs A @ x # refs B @ y # refs C)"
    and link: "\<And>p. parent (heap self x) = Some p \<Longrightarrow> p \<notin> set (refs A @ x # refs B @ y # refs C)"
  shows "\<exists>self'. left_rotate self x = Inr self'
      \<and> tree_ok (heap self') (parent (heap self x)) (Some y) (Br (Br A x B) y C)
      \<and> root self' = (case parent (heap self x) of None \<Rightarrow> Some y | Some p \<Rightarrow> root self)
      \<and> data self' = data self \<and> next_ref self' = next_ref self
      \<and> (\<forall>q. key (heap self' q) = key (heap self q))
      \<and> (\<forall>q. q \<notin> set (refs A @ x # refs B @ y # refs C) \<longrightarrow> Some q \<noteq> parent (heap self x)
            \<longrightarrow> heap self' q = heap self q)
      \<and> (\<forall>p. parent (heap self x) = Some p \<longrightarrow> heap self' p = relink (heap self p) x y)"
proof -
  define h where "h = heap self"
  define par where "par = parent (h x)"
  define bq where "bq = left (h y)"
  define h1 where "h1 = h(y := (h y)\<lparr>parent := parent (h x)\<rparr>)"
  define h2 where "h2 = (case parent (h1 y) of None \<Rightarrow> h1
                    | Some p \<Rightarrow>
                        if left (h1 p) = Some x then h1(p := (h1 p)\<lparr>left := Some y\<rparr>)
                        else if right (h1 p) = Some x then h1(p := (h1 p)\<lparr>right := Some y\<rparr>)
                        else h1)"
  define h3 where "h3 = h2(x := (h2 x)\<lparr>right := left (h2 y)\<rparr>)"
  define h4 where "h4 = (case right (h3 x) of None \<Rightarrow> h3
                    | Some c \<Rightarrow> h3(c := (h3 c)\<lparr>parent := Some x\<rparr>))"
  define h5 where "h5 = h4(y := (h4 y)\<lparr>left := Some x\<rparr>)"
  define h6 where "h6 = h5(x := (h5 x)\<lparr>parent := Some y\<rparr>)"
  define h8 where "h8 = h6(x := (h6 x)\<lparr>height := Some (ht (Br A x B)), number_below := Some (sz A + sz B)\<rparr>)"
  define h10 where "h10 = h8(y := (h8 y)\<lparr>height := Some (ht (Br (Br A x B) y C)),
      number_below := Some (sz (Br A x B) + sz C)\<rparr>)"
  define root1 where "root1 = (case parent (h1 y) of None \<Rightarrow> Some y | Some p \<Rightarrow> root self)"
  have rot0: "left_rotate self x =
        seq (update_height h6 x) (\<lambda>h7. seq (update_number_below h7 x) (\<lambda>h8.
        seq (update_height h8 y) (\<lambda>h9. seq (update_number_below h9 y) (\<lambda>h10.
          Inr (self\<lparr>root := root1, heap := h10\<rparr>)))))"
    unfolding left_rotate_def Let_def h6_def h5_def h4_def h3_def h2_def h1_def root1_def h_def
    using hx by simp
  from wy have wb: "tree_ok h (Some y) bq B" and wc: "tree_ok h (Some y) (right (h y)) C"
    by (simp_all add: h_def bq_def)
  from wa have wa': "tree_ok h (Some x) (left (h x)) A" by (simp add: h_def)
  from dist have xy: "x \<noteq> y" by auto
  have pn: "p \<noteq> x" "p \<noteq> y" "p \<notin> set (refs A)" "p \<notin> set (refs B)" "p \<notin> set (refs C)"
    if "par = Some p" for p
    using link [of p] that by (auto simp: par_def h_def)
  have bB: "b \<in> set (refs B)" if "bq = Some b" for b
    using wb that tree_ok_root by simp
  have bn: "b \<noteq> x" "b \<noteq> y" "b \<notin> set (refs A)" "b \<notin> set (refs C)" "par \<noteq> Some b"
    if "bq = Some b" for b
    using bB [OF that] dist pn(4) by auto
  \<comment> \<open>the store after the pointer updates\<close>
  have p1: "parent (h1 y) = par" by (simp add: h1_def par_def)
  have h1': "h1 = h(y := (h y)\<lparr>parent := par\<rparr>)" by (simp add: h1_def par_def)
  have h2': "h2 = (case par of None \<Rightarrow> h1 | Some p \<Rightarrow> h1(p := relink (h1 p) x y))"
    by (cases par) (auto simp: h2_def p1 relink_def)
  have l2: "left (h2 y) = bq"
    using pn(2) by (auto simp: h2' h1' bq_def split: option.splits)
  have h3': "h3 = h2(x := (h2 x)\<lparr>right := bq\<rparr>)" by (simp add: h3_def l2)
  have h4': "h4 = (case bq of None \<Rightarrow> h3 | Some b \<Rightarrow> h3(b := (h3 b)\<lparr>parent := Some x\<rparr>))"
    by (simp add: h4_def h3')
  note defs = h1' h2' h3' h4' h5_def h6_def
  have root1: "root1 = (case par of None \<Rightarrow> Some y | Some p \<Rightarrow> root self)"
    by (simp add: root1_def p1)
  have same: "h6 q = h q" if "q \<noteq> x" "q \<noteq> y" "bq \<noteq> Some q" "par \<noteq> Some q" for q
    using that by (auto simp: defs split: option.splits)
  have fy: "right (h6 y) = right (h y)" "left (h6 y) = Some x" "parent (h6 y) = par"
    using xy pn(2) bn(2) by (auto simp: defs split: option.splits)
  have fx: "right (h6 x) = bq" "left (h6 x) = left (h x)" "parent (h6 x) = Some y"
    using xy pn(1) bn(1) by (auto simp: defs split: option.splits)
  have fb: "h6 b = (h b)\<lparr>parent := Some x\<rparr>" if "bq = Some b" for b
    using that bn [OF that] by (auto simp: defs split: option.splits)
  have fp: "h6 p = relink (h p) x y" if "par = Some p" for p
    using that pn [OF that] bB by (auto simp: defs split: option.splits)
  have kk: "key (h6 q) = key (h q)" for q
    by (auto simp: defs relink_def split: option.splits)
  have C6: "tree_ok h6 (Some y) (right (h6 y)) C"
  proof -
    have "\<forall>q \<in> set (refs C). h6 q = h q"
      using dist bn(4) pn(5) by (auto intro!: same)
    from tree_ok_cong [OF this] wc fy show ?thesis by simp
  qed
  have A6: "tree_ok h6 (Some x) (left (h6 x)) A"
  proof -
    have "\<forall>q \<in> set (refs A). h6 q = h q"
      using dist bn(3) pn(3) by (auto intro!: same)
    from tree_ok_cong [OF this] wa' fx show ?thesis by simp
  qed
  have B6: "tree_ok h6 (Some x) (right (h6 x)) B"
  proof (cases bq)
    case None
    with wb show ?thesis by (simp add: fx tree_ok_None)
  next
    case (Some b)
    let ?hb = "h(b := (h b)\<lparr>parent := Some x\<rparr>)"
    from dist have dB: "distinct (refs B)" by simp
    from wb Some have "tree_ok ?hb (Some x) (Some b) B"
      using tree_ok_reparent [OF _ dB] by simp
    moreover have "\<forall>q \<in> set (refs B). h6 q = ?hb q"
    proof
      fix q assume q: "q \<in> set (refs B)"
      show "h6 q = ?hb q"
      proof (cases "q = b")
        case True
        then show ?thesis using fb [OF Some] by simp
      next
        case False
        with q dist pn(4) Some have "h6 q = h q" by (auto intro!: same)
        with False show ?thesis by simp
      qed
    qed
    ultimately show ?thesis using tree_ok_cong [of B h6 ?hb "Some x" "Some b"] Some fx by simp
  qed
  \<comment> \<open>the two cache updates\<close>
  have yB: "y \<notin> set (refs B)" and yC: "y \<notin> set (refs C)" and yA: "y \<notin> set (refs A)"
    and xA: "x \<notin> set (refs A)" and xB: "x \<notin> set (refs B)" and xC: "x \<notin> set (refs C)"
    using dist by auto
  note cx = cache_update [OF A6 B6 xA xB, folded h8_def]
  have X8: "tree_ok h8 (Some y) (left (h8 y)) (Br A x B)"
    using cx(2) fx fy xy by (simp add: h8_def)
  have C8: "tree_ok h8 (Some y) (right (h8 y)) C"
  proof -
    have "tree_ok h8 (Some y) (right (h6 y)) C = tree_ok h6 (Some y) (right (h6 y)) C"
      by (rule tree_ok_cong) (use xC in \<open>simp add: h8_def\<close>)
    moreover have "right (h8 y) = right (h6 y)" using xy by (simp add: h8_def)
    ultimately show ?thesis using C6 by simp
  qed
  have yX: "y \<notin> set (refs (Br A x B))" using yA yB xy by simp
  note cy = cache_update [OF X8 C8 yX yC, folded h10_def]
  have p8: "parent (h8 y) = par" using fy xy by (simp add: h8_def)
  have rot: "left_rotate self x = Inr (self\<lparr>root := root1, heap := h10\<rparr>)"
    by (simp add: rot0 cy(1) cx(1))
  have "tree_ok h10 par (Some y) (Br (Br A x B) y C)" using cy(2) p8 by simp
  moreover have "heap (self\<lparr>root := root1, heap := h10\<rparr>) q = heap self q"
    if "q \<notin> set (refs A @ x # refs B @ y # refs C)" "Some q \<noteq> par" for q
  proof -
    from that bB have "h6 q = h q" by (intro same) auto
    with that show ?thesis by (simp add: h10_def h8_def h_def)
  qed
  moreover have "heap (self\<lparr>root := root1, heap := h10\<rparr>) p = relink (heap self p) x y"
    if "par = Some p" for p
    using fp [OF that] pn [OF that] by (simp add: h10_def h8_def h_def)
  moreover have "key (heap (self\<lparr>root := root1, heap := h10\<rparr>) q) = key (heap self q)" for q
    using kk [of x] kk [of y] kk [of q] by (simp add: h10_def h8_def h_def)
  ultimately show ?thesis
    unfolding rot by (simp add: root1 par_def h_def)
qed

lemma tree_ok_Br:
  "tree_ok h par q (Br l a r) =
     (q = Some a \<and> parent (h a) = par \<and> height (h a) = Some (ht (Br l a r))
      \<and> number_below (h a) = Some (sz l + sz r)
      \<and> tree_ok h (Some a) (left (h a)) l \<and> tree_ok h (Some a) (right (h a)) r)"
  by (cases q) auto

lemma ht_Br_ge: "0 \<le> ht (Br l a r)"
  using ht_ge [of l] ht_ge [of r] by simp

lemma ht_pos_Br: "0 \<le> ht t \<Longrightarrow> \<exists>l a r. t = Br l a r"
  by (cases t) auto

lemma relink_same: "relink n a a = n"
  by (simp add: relink_def)

lemma left_heavy:
  assumes wl: "tree_ok (heap s) (Some a) (left (heap s a)) (Br ll x lr)"
    and wr: "tree_ok (heap s) (Some a) (right (heap s a)) r"
    and bl: "bal (Br ll x lr)" and br: "bal r"
    and imb: "ht (Br ll x lr) = ht r + 2"
    and dist: "distinct (refs (Br ll x lr) @ a # refs r)"
    and link: "\<And>p. parent (heap s a) = Some p \<Longrightarrow> p \<notin> set (refs (Br ll x lr) @ a # refs r)"
  shows "\<exists>s' q t'.
      (if ht ll \<ge> ht lr then right_rotate s a
       else seq (left_rotate s x) (\<lambda>s3. right_rotate s3 a)) = Inr s'
      \<and> tree_ok (heap s') (parent (heap s a)) (Some q) t' \<and> bal t'
      \<and> refs t' = refs (Br ll x lr) @ a # refs r
      \<and> (ht t' = ht (Br ll x lr) \<or> ht t' = ht (Br ll x lr) + 1)
      \<and> parent (heap s' a) = Some q
      \<and> frame_ok s s' (set (refs (Br ll x lr) @ a # refs r)) a q"
proof (cases "ht ll \<ge> ht lr")
  case True
  from wl have hy: "left (heap s a) = Some x" by (simp add: tree_ok_Br)
  from wl hy have wx: "tree_ok (heap s) (Some a) (Some x) (Br ll x lr)" by simp
  have d: "distinct (refs ll @ x # refs lr @ a # refs r)" using dist by simp
  have lk: "p \<notin> set (refs ll @ x # refs lr @ a # refs r)" if "parent (heap s a) = Some p" for p
    using link [OF that] by simp
  from right_rotate_tree_ok [OF hy wx wr d lk] obtain s' where
    rot: "right_rotate s a = Inr s'"
    and w: "tree_ok (heap s') (parent (heap s a)) (Some x) (Br ll x (Br lr a r))"
    and rt: "root s' = (case parent (heap s a) of None \<Rightarrow> Some x | Some p \<Rightarrow> root s)"
    and dn: "data s' = data s" "next_ref s' = next_ref s"
    and ky: "\<forall>q. key (heap s' q) = key (heap s q)"
    and fr: "\<forall>q. q \<notin> set (refs ll @ x # refs lr @ a # refs r) \<longrightarrow> Some q \<noteq> parent (heap s a)
            \<longrightarrow> heap s' q = heap s q"
    and rl: "\<forall>p. parent (heap s a) = Some p \<longrightarrow> heap s' p = relink (heap s p) a x"
    by blast
  have b: "bal (Br ll x (Br lr a r))" using bl br imb True by auto
  have hh: "ht (Br ll x (Br lr a r)) = ht (Br ll x lr) \<or> ht (Br ll x (Br lr a r)) = ht (Br ll x lr) + 1"
    using bl imb True by auto
  have pa: "parent (heap s' a) = Some x" using w by (simp add: tree_ok_Br)
  have "frame_ok s s' (set (refs (Br ll x lr) @ a # refs r)) a x"
    using rt dn ky fr rl by (simp add: frame_ok_def)
  with rot w b hh pa True show ?thesis
    by (intro exI [of _ s'] exI [of _ x] exI [of _ "Br ll x (Br lr a r)"]) simp
next
  case False
  with bl have "0 \<le> ht lr" using ht_ge [of ll] by simp
  then obtain lrl y lrr where lr: "lr = Br lrl y lrr" using ht_pos_Br by blast
  let ?S = "set (refs (Br ll x lr) @ a # refs r)"
  from wl have la: "left (heap s a) = Some x" and px: "parent (heap s x) = Some a"
    and hx: "right (heap s x) = Some y"
    and wll: "tree_ok (heap s) (Some x) (left (heap s x)) ll"
    by (simp_all add: tree_ok_Br lr)
  from wl hx have wy: "tree_ok (heap s) (Some x) (Some y) (Br lrl y lrr)" by (simp add: tree_ok_Br lr)
  have d1: "distinct (refs ll @ x # refs lrl @ y # refs lrr)" using dist lr by auto
  have lk1: "p \<notin> set (refs ll @ x # refs lrl @ y # refs lrr)" if "parent (heap s x) = Some p" for p
    using that px dist lr by auto
  from left_rotate_tree_ok [OF hx wy wll d1 lk1] obtain s3 where
    rot3: "left_rotate s x = Inr s3"
    and w3: "tree_ok (heap s3) (Some a) (Some y) (Br (Br ll x lrl) y lrr)"
    and rt3: "root s3 = root s"
    and dn3: "data s3 = data s" "next_ref s3 = next_ref s"
    and ky3: "\<forall>q. key (heap s3 q) = key (heap s q)"
    and fr3: "\<forall>q. q \<notin> set (refs ll @ x # refs lrl @ y # refs lrr) \<longrightarrow> q \<noteq> a
            \<longrightarrow> heap s3 q = heap s q"
    and rl3: "heap s3 a = relink (heap s a) x y"
    by (auto simp: px)
  have a3: "left (heap s3 a) = Some y" "right (heap s3 a) = right (heap s a)"
    "parent (heap s3 a) = parent (heap s a)"
    using la by (simp_all add: rl3 relink_def)
  have w3': "tree_ok (heap s3) (Some a) (Some y) (Br (Br ll x lrl) y lrr)" by (rule w3)
  have wr3: "tree_ok (heap s3) (Some a) (right (heap s3 a)) r"
  proof -
    have "\<forall>q \<in> set (refs r). heap s3 q = heap s q" using fr3 dist lr by auto
    from tree_ok_cong [OF this] wr a3 show ?thesis by simp
  qed
  have d2: "distinct (refs (Br ll x lrl) @ y # refs lrr @ a # refs r)" using dist lr by auto
  have lk2: "p \<notin> set (refs (Br ll x lrl) @ y # refs lrr @ a # refs r)"
    if "parent (heap s3 a) = Some p" for p
    using link [of p] that a3 lr by simp
  from right_rotate_tree_ok [OF a3(1) w3' wr3 d2 lk2] obtain s' where
    rot: "right_rotate s3 a = Inr s'"
    and w: "tree_ok (heap s') (parent (heap s a)) (Some y) (Br (Br ll x lrl) y (Br lrr a r))"
    and rt: "root s' = (case parent (heap s a) of None \<Rightarrow> Some y | Some p \<Rightarrow> root s3)"
    and dn: "data s' = data s3" "next_ref s' = next_ref s3"
    and ky: "\<forall>q. key (heap s' q) = key (heap s3 q)"
    and fr: "\<forall>q. q \<notin> set (refs (Br ll x lrl) @ y # refs lrr @ a # refs r)
            \<longrightarrow> Some q \<noteq> parent (heap s a) \<longrightarrow> heap s' q = heap s3 q"
    and rl: "\<forall>p. parent (heap s a) = Some p \<longrightarrow> heap s' p = relink (heap s3 p) a y"
    by (auto simp: a3)
  have b: "bal (Br (Br ll x lrl) y (Br lrr a r))" using bl br imb False lr by auto
  have hh: "ht (Br (Br ll x lrl) y (Br lrr a r)) = ht (Br ll x lr)"
    using bl imb False lr by auto
  have rf: "refs (Br (Br ll x lrl) y (Br lrr a r)) = refs (Br ll x lr) @ a # refs r"
    by (simp add: lr)
  have pa: "parent (heap s' a) = Some y" using w by (simp add: tree_ok_Br)
  have f1: "heap s' q = heap s q" if "q \<notin> ?S" "Some q \<noteq> parent (heap s a)" for q
  proof -
    from that have "heap s' q = heap s3 q" using fr lr by simp
    moreover from that have "heap s3 q = heap s q" using fr3 lr by simp
    ultimately show ?thesis by simp
  qed
  have f2: "heap s' p = relink (heap s p) a y" if "parent (heap s a) = Some p" for p
  proof -
    from link [OF that] have "p \<notin> set (refs ll @ x # refs lrl @ y # refs lrr)" "p \<noteq> a"
      by (auto simp: lr)
    with fr3 have "heap s3 p = heap s p" by simp
    with rl that show ?thesis by simp
  qed
  have "frame_ok s s' ?S a y"
    unfolding frame_ok_def using rt rt3 dn dn3 ky ky3 f1 f2 by (simp split: option.splits)
  with rot rot3 w b hh rf pa False show ?thesis
    by (intro exI [of _ s'] exI [of _ y] exI [of _ "Br (Br ll x lrl) y (Br lrr a r)"])
      (simp add: seq_def)
qed

lemma right_heavy:
  assumes wl: "tree_ok (heap s) (Some a) (left (heap s a)) l"
    and wr: "tree_ok (heap s) (Some a) (right (heap s a)) (Br rl y rr)"
    and bl: "bal l" and br: "bal (Br rl y rr)"
    and imb: "ht (Br rl y rr) = ht l + 2"
    and dist: "distinct (refs l @ a # refs (Br rl y rr))"
    and link: "\<And>p. parent (heap s a) = Some p \<Longrightarrow> p \<notin> set (refs l @ a # refs (Br rl y rr))"
  shows "\<exists>s' q t'.
      (if ht rr \<ge> ht rl then left_rotate s a
       else seq (right_rotate s y) (\<lambda>s3. left_rotate s3 a)) = Inr s'
      \<and> tree_ok (heap s') (parent (heap s a)) (Some q) t' \<and> bal t'
      \<and> refs t' = refs l @ a # refs (Br rl y rr)
      \<and> (ht t' = ht (Br rl y rr) \<or> ht t' = ht (Br rl y rr) + 1)
      \<and> parent (heap s' a) = Some q
      \<and> frame_ok s s' (set (refs l @ a # refs (Br rl y rr))) a q"
proof (cases "ht rr \<ge> ht rl")
  case True
  from wr have hx: "right (heap s a) = Some y" by (simp add: tree_ok_Br)
  from wr hx have wy: "tree_ok (heap s) (Some a) (Some y) (Br rl y rr)" by simp
  have d: "distinct (refs l @ a # refs rl @ y # refs rr)" using dist by simp
  have lk: "p \<notin> set (refs l @ a # refs rl @ y # refs rr)" if "parent (heap s a) = Some p" for p
    using link [OF that] by simp
  from left_rotate_tree_ok [OF hx wy wl d lk] obtain s' where
    rot: "left_rotate s a = Inr s'"
    and w: "tree_ok (heap s') (parent (heap s a)) (Some y) (Br (Br l a rl) y rr)"
    and rt: "root s' = (case parent (heap s a) of None \<Rightarrow> Some y | Some p \<Rightarrow> root s)"
    and dn: "data s' = data s" "next_ref s' = next_ref s"
    and ky: "\<forall>q. key (heap s' q) = key (heap s q)"
    and fr: "\<forall>q. q \<notin> set (refs l @ a # refs rl @ y # refs rr) \<longrightarrow> Some q \<noteq> parent (heap s a)
            \<longrightarrow> heap s' q = heap s q"
    and rl: "\<forall>p. parent (heap s a) = Some p \<longrightarrow> heap s' p = relink (heap s p) a y"
    by blast
  have b: "bal (Br (Br l a rl) y rr)" using bl br imb True by auto
  have hh: "ht (Br (Br l a rl) y rr) = ht (Br rl y rr) \<or> ht (Br (Br l a rl) y rr) = ht (Br rl y rr) + 1"
    using br imb True by auto
  have pa: "parent (heap s' a) = Some y" using w by (simp add: tree_ok_Br)
  have "frame_ok s s' (set (refs l @ a # refs (Br rl y rr))) a y"
    using rt dn ky fr rl by (simp add: frame_ok_def)
  with rot w b hh pa True show ?thesis
    by (intro exI [of _ s'] exI [of _ y] exI [of _ "Br (Br l a rl) y rr"]) simp
next
  case False
  with br have "0 \<le> ht rl" using ht_ge [of rr] by simp
  then obtain rll x rlr where rl: "rl = Br rll x rlr" using ht_pos_Br by blast
  let ?S = "set (refs l @ a # refs (Br rl y rr))"
  from wr have ra: "right (heap s a) = Some y" and py: "parent (heap s y) = Some a"
    and hy: "left (heap s y) = Some x"
    and wrr: "tree_ok (heap s) (Some y) (right (heap s y)) rr"
    by (simp_all add: tree_ok_Br rl)
  from wr hy have wx: "tree_ok (heap s) (Some y) (Some x) (Br rll x rlr)" by (simp add: tree_ok_Br rl)
  have la: "left (heap s a) \<noteq> Some y"
  proof
    assume "left (heap s a) = Some y"
    with wl have "y \<in> set (refs l)" using tree_ok_root by simp
    with dist show False by auto
  qed
  have d1: "distinct (refs rll @ x # refs rlr @ y # refs rr)" using dist rl by auto
  have lk1: "p \<notin> set (refs rll @ x # refs rlr @ y # refs rr)" if "parent (heap s y) = Some p" for p
    using that py dist rl by auto
  from right_rotate_tree_ok [OF hy wx wrr d1 lk1] obtain s3 where
    rot3: "right_rotate s y = Inr s3"
    and w3: "tree_ok (heap s3) (Some a) (Some x) (Br rll x (Br rlr y rr))"
    and rt3: "root s3 = root s"
    and dn3: "data s3 = data s" "next_ref s3 = next_ref s"
    and ky3: "\<forall>q. key (heap s3 q) = key (heap s q)"
    and fr3: "\<forall>q. q \<notin> set (refs rll @ x # refs rlr @ y # refs rr) \<longrightarrow> q \<noteq> a
            \<longrightarrow> heap s3 q = heap s q"
    and rl3: "heap s3 a = relink (heap s a) y x"
    by (auto simp: py)
  have a3: "right (heap s3 a) = Some x" "left (heap s3 a) = left (heap s a)"
    "parent (heap s3 a) = parent (heap s a)"
    using ra la by (simp_all add: rl3 relink_def)
  have wl3: "tree_ok (heap s3) (Some a) (left (heap s3 a)) l"
  proof -
    have "\<forall>q \<in> set (refs l). heap s3 q = heap s q" using fr3 dist rl by auto
    from tree_ok_cong [OF this] wl a3 show ?thesis by simp
  qed
  have d2: "distinct (refs l @ a # refs rll @ x # refs (Br rlr y rr))" using dist rl by auto
  have lk2: "p \<notin> set (refs l @ a # refs rll @ x # refs (Br rlr y rr))"
    if "parent (heap s3 a) = Some p" for p
    using link [of p] that a3 rl by simp
  from left_rotate_tree_ok [OF a3(1) w3 wl3 d2 lk2] obtain s' where
    rot: "left_rotate s3 a = Inr s'"
    and w: "tree_ok (heap s') (parent (heap s a)) (Some x) (Br (Br l a rll) x (Br rlr y rr))"
    and rt: "root s' = (case parent (heap s a) of None \<Rightarrow> Some x | Some p \<Rightarrow> root s3)"
    and dn: "data s' = data s3" "next_ref s' = next_ref s3"
    and ky: "\<forall>q. key (heap s' q) = key (heap s3 q)"
    and fr: "\<forall>q. q \<notin> set (refs l @ a # refs rll @ x # refs (Br rlr y rr))
            \<longrightarrow> Some q \<noteq> parent (heap s a) \<longrightarrow> heap s' q = heap s3 q"
    and rlk: "\<forall>p. parent (heap s a) = Some p \<longrightarrow> heap s' p = relink (heap s3 p) a x"
    by (auto simp: a3)
  have b: "bal (Br (Br l a rll) x (Br rlr y rr))" using bl br imb False rl by auto
  have hh: "ht (Br (Br l a rll) x (Br rlr y rr)) = ht (Br rl y rr)"
    using br imb False rl by auto
  have rf: "refs (Br (Br l a rll) x (Br rlr y rr)) = refs l @ a # refs (Br rl y rr)"
    by (simp add: rl)
  have pa: "parent (heap s' a) = Some x" using w by (simp add: tree_ok_Br)
  have f1: "heap s' q = heap s q" if "q \<notin> ?S" "Some q \<noteq> parent (heap s a)" for q
  proof -
    from that have "heap s' q = heap s3 q" using fr rl by simp
    moreover from that have "heap s3 q = heap s q" using fr3 rl by simp
    ultimately show ?thesis by simp
  qed
  have f2: "heap s' p = relink (heap s p) a x" if "parent (heap s a) = Some p" for p
  proof -
    from link [OF that] have "p \<notin> set (refs rll @ x # refs rlr @ y # refs rr)" "p \<noteq> a"
      by (auto simp: rl)
    with fr3 have "heap s3 p = heap s p" by simp
    with rlk that show ?thesis by simp
  qed
  have "frame_ok s s' ?S a x"
    unfolding frame_ok_def using rt rt3 dn dn3 ky ky3 f1 f2 by (simp split: option.splits)
  with rot rot3 w b hh rf pa False show ?thesis
    by (intro exI [of _ s'] exI [of _ x] exI [of _ "Br (Br l a rll) x (Br rlr y rr)"])
      (simp add: seq_def)
qed

lemma rebalance_node_tree_ok:
  assumes wl: "tree_ok (heap s) (Some a) (left (heap s a)) l"
    and wr: "tree_ok (heap s) (Some a) (right (heap s a)) r"
    and bl: "bal l" and br: "bal r"
    and imb: "\<bar>ht l - ht r\<bar> \<le> 2"
    and dist: "distinct (refs l @ a # refs r)"
    and link: "\<And>p. parent (heap s a) = Some p \<Longrightarrow> p \<notin> set (refs l @ a # refs r)"
    and rootp: "parent (heap s a) = None \<Longrightarrow> root s = Some a"
  shows "\<exists>s' q t'. rebalance_node s a = Inr s'
      \<and> tree_ok (heap s') (parent (heap s a)) (Some q) t' \<and> bal t'
      \<and> refs t' = refs l @ a # refs r
      \<and> (\<bar>ht l - ht r\<bar> \<le> 1 \<longrightarrow> ht t' = ht (Br l a r))
      \<and> (\<not> \<bar>ht l - ht r\<bar> \<le> 1 \<longrightarrow> ht t' = max (ht l) (ht r) \<or> ht t' = max (ht l) (ht r) + 1)
      \<and> (\<bar>ht l - ht r\<bar> \<le> 1 \<longrightarrow> q = a)
      \<and> (\<not> \<bar>ht l - ht r\<bar> \<le> 1 \<longrightarrow> parent (heap s' a) = Some q)
      \<and> frame_ok s s' (set (refs l @ a # refs r)) a q"
proof -
  from dist have al: "a \<notin> set (refs l)" and ar: "a \<notin> set (refs r)" by auto
  define h2 where "h2 = (heap s)(a := (heap s a)\<lparr>height := Some (ht (Br l a r)),
      number_below := Some (sz l + sz r)\<rparr>)"
  define s2 where "s2 = s\<lparr>heap := h2\<rparr>"
  note cu = cache_update [OF wl wr al ar, folded h2_def]
  from cu(2) have wl2: "tree_ok h2 (Some a) (left (h2 a)) l" and wr2: "tree_ok h2 (Some a) (right (h2 a)) r"
    and p2: "parent (h2 a) = parent (heap s a)"
    by (simp_all add: tree_ok_Br)
  note hl = height_of_tree_ok [OF wl2] and hr = height_of_tree_ok [OF wr2]
  have pne: "parent (heap s a) \<noteq> Some a" using link [of a] by auto
  have fr2: "frame_ok s2 s' S a q \<Longrightarrow> a \<in> S \<Longrightarrow> frame_ok s s' S a q" for s' S q
    unfolding frame_ok_def s2_def h2_def using pne
    by (cases "parent (heap s a)") (auto split: if_splits)
  have s2h: "heap s2 = h2" by (simp add: s2_def)
  have body: "rebalance_node s a =
      (if left (h2 a) \<noteq> None \<or> right (h2 a) \<noteq> None then
         if ht l \<ge> 2 + ht r then
           seq (attr (left (h2 a))) (\<lambda>l.
           seq (height_of h2 (left (h2 l))) (\<lambda>hll.
           seq (height_of h2 (right (h2 l))) (\<lambda>hlr.
           if hll \<ge> hlr then right_rotate s2 a
           else seq (left_rotate s2 l) (\<lambda>self3. right_rotate self3 a))))
         else if ht r \<ge> 2 + ht l then
           seq (attr (right (h2 a))) (\<lambda>r.
           seq (height_of h2 (right (h2 r))) (\<lambda>hrr.
           seq (height_of h2 (left (h2 r))) (\<lambda>hrl.
           if hrr \<ge> hrl then left_rotate s2 a
           else seq (right_rotate s2 r) (\<lambda>self3. left_rotate self3 a))))
         else Inr s2
       else Inr s2)"
    unfolding rebalance_node_def cu(1) Let_def s2_def [symmetric]
    by (simp add: hl hr seq_def)
  consider (ok) "\<bar>ht l - ht r\<bar> \<le> 1" | (lh) "ht l = ht r + 2" | (rh) "ht r = ht l + 2"
    using imb by linarith
  then show ?thesis
  proof cases
    case ok
    then have "\<not> ht l \<ge> 2 + ht r" "\<not> ht r \<ge> 2 + ht l" by linarith+
    then have "rebalance_node s a = Inr s2" by (simp add: body)
    moreover have "tree_ok (heap s2) (parent (heap s a)) (Some a) (Br l a r)"
      using cu(2) by (simp add: s2h)
    moreover have "bal (Br l a r)" using bl br ok by simp
    moreover have "frame_ok s s2 (set (refs l @ a # refs r)) a a"
      unfolding frame_ok_def s2_def h2_def using rootp pne
      by (auto simp: relink_same split: option.splits)
    ultimately show ?thesis using ok
      by (intro exI [of _ s2] exI [of _ a] exI [of _ "Br l a r"]) simp
  next
    case lh
    then have "0 \<le> ht l" using ht_ge [of r] by simp
    then obtain ll x lr where l: "l = Br ll x lr" using ht_pos_Br by blast
    from wl2 have lx: "left (h2 a) = Some x"
      and wll: "tree_ok h2 (Some x) (left (h2 x)) ll" and wlr: "tree_ok h2 (Some x) (right (h2 x)) lr"
      by (simp_all add: tree_ok_Br l)
    have eq: "rebalance_node s a =
        (if ht ll \<ge> ht lr then right_rotate s2 a
         else seq (left_rotate s2 x) (\<lambda>s3. right_rotate s3 a))"
      using lh by (simp add: body lx attr_def seq_def height_of_tree_ok [OF wll] height_of_tree_ok [OF wlr])
    have "\<exists>s' q t'.
      (if ht ll \<ge> ht lr then right_rotate s2 a
       else seq (left_rotate s2 x) (\<lambda>s3. right_rotate s3 a)) = Inr s'
      \<and> tree_ok (heap s') (parent (heap s2 a)) (Some q) t' \<and> bal t'
      \<and> refs t' = refs (Br ll x lr) @ a # refs r
      \<and> (ht t' = ht (Br ll x lr) \<or> ht t' = ht (Br ll x lr) + 1)
      \<and> parent (heap s' a) = Some q
      \<and> frame_ok s2 s' (set (refs (Br ll x lr) @ a # refs r)) a q"
      by (rule left_heavy)
        (use wl2 wr2 bl br lh dist link p2 in \<open>simp_all add: s2h l [symmetric]\<close>)
    then obtain s' q t' where
      r: "(if ht ll \<ge> ht lr then right_rotate s2 a
           else seq (left_rotate s2 x) (\<lambda>s3. right_rotate s3 a)) = Inr s'"
      and w: "tree_ok (heap s') (parent (heap s2 a)) (Some q) t'" and b: "bal t'"
      and rf: "refs t' = refs (Br ll x lr) @ a # refs r"
      and hh: "ht t' = ht (Br ll x lr) \<or> ht t' = ht (Br ll x lr) + 1"
      and pa: "parent (heap s' a) = Some q"
      and fo: "frame_ok s2 s' (set (refs (Br ll x lr) @ a # refs r)) a q"
      by blast
    have "frame_ok s s' (set (refs l @ a # refs r)) a q"
      using fr2 [OF fo] by (simp add: l)
    moreover have "ht t' = max (ht l) (ht r) \<or> ht t' = max (ht l) (ht r) + 1"
      using hh lh by (simp add: l [symmetric])
    ultimately show ?thesis using r w b rf pa lh eq
      by (intro exI [of _ s'] exI [of _ q] exI [of _ t']) (simp add: s2h p2 l)
  next
    case rh
    then have "0 \<le> ht r" using ht_ge [of l] by simp
    then obtain rl y rr where r: "r = Br rl y rr" using ht_pos_Br by blast
    from wr2 have ry: "right (h2 a) = Some y"
      and wrl: "tree_ok h2 (Some y) (left (h2 y)) rl" and wrr: "tree_ok h2 (Some y) (right (h2 y)) rr"
      by (simp_all add: tree_ok_Br r)
    have eq: "rebalance_node s a =
        (if ht rr \<ge> ht rl then left_rotate s2 a
         else seq (right_rotate s2 y) (\<lambda>s3. left_rotate s3 a))"
      using rh by (simp add: body ry attr_def seq_def height_of_tree_ok [OF wrl] height_of_tree_ok [OF wrr])
    have "\<exists>s' q t'.
      (if ht rr \<ge> ht rl then left_rotate s2 a
       else seq (right_rotate s2 y) (\<lambda>s3. left_rotate s3 a)) = Inr s'
      \<and> tree_ok (heap s') (parent (heap s2 a)) (Some q) t' \<and> bal t'
      \<and> refs t' = refs l @ a # refs (Br rl y rr)
      \<and> (ht t' = ht (Br rl y rr) \<or> ht t' = ht (Br rl y rr) + 1)
      \<and> parent (heap s' a) = Some q
      \<and> frame_ok s2 s' (set (refs l @ a # refs (Br rl y rr))) a q"
      by (rule right_heavy)
        (use wl2 wr2 bl br rh dist link p2 in \<open>simp_all add: s2h r [symmetric]\<close>)
    then obtain s' q t' where
      ro: "(if ht rr \<ge> ht rl then left_rotate s2 a
           else seq (right_rotate s2 y) (\<lambda>s3. left_rotate s3 a)) = Inr s'"
      and w: "tree_ok (heap s') (parent (heap s2 a)) (Some q) t'" and b: "bal t'"
      and rf: "refs t' = refs l @ a # refs (Br rl y rr)"
      and hh: "ht t' = ht (Br rl y rr) \<or> ht t' = ht (Br rl y rr) + 1"
      and pa: "parent (heap s' a) = Some q"
      and fo: "frame_ok s2 s' (set (refs l @ a # refs (Br rl y rr))) a q"
      by blast
    have "frame_ok s s' (set (refs l @ a # refs r)) a q"
      using fr2 [OF fo] by (simp add: r)
    moreover have "ht t' = max (ht l) (ht r) \<or> ht t' = max (ht l) (ht r) + 1"
      using hh rh by (simp add: r [symmetric])
    ultimately show ?thesis using ro w b rf pa rh eq
      by (intro exI [of _ s'] exI [of _ q] exI [of _ t']) (simp add: s2h p2 r)
  qed
qed

lemma ctx_frame:
  "ctx h rt c ho C \<Longrightarrow> (\<forall>x \<in> set (lefts C @ rights C). h' x = h x) \<Longrightarrow> ctx h' rt c ho C"
proof (induction C arbitrary: c ho)
  case Nil
  then show ?case by simp
next
  case (Cons f C)
  obtain d a sb where f: "f = (d, a, sb)" by (cases f)
  from Cons.prems(2) have a: "h' a = h a" and sb: "\<forall>x \<in> set (refs sb). h' x = h x"
    and rest: "\<forall>x \<in> set (lefts C @ rights C). h' x = h x"
    by (cases d; auto simp: f)+
  from Cons.prems(1) have "ctx h rt a (max ho (ht sb) + 1) C" by (simp add: f)
  then have "ctx h' rt a (max ho (ht sb) + 1) C" using rest by (rule Cons.IH)
  with Cons.prems(1) a tree_ok_cong [OF sb] show ?case by (cases d) (simp_all add: f)
qed

lemma ctx_relink:
  assumes c: "ctx h rt c ho C"
    and cn: "c \<notin> set (lefts C @ rights C)"
    and d: "distinct (lefts C @ rights C)"
    and same: "\<And>x. x \<in> set (lefts C @ rights C) \<Longrightarrow> Some x \<noteq> cpar C \<Longrightarrow> h' x = h x"
    and rl: "\<And>p. cpar C = Some p \<Longrightarrow> h' p = relink (h p) c q"
    and rt': "rt' = (case cpar C of None \<Rightarrow> Some q | Some p \<Rightarrow> rt)"
  shows "ctx h' rt' q ho C"
proof (cases C)
  case Nil
  with rt' show ?thesis by simp
next
  case (Cons f C')
  obtain dr a sb where f: "f = (dr, a, sb)" by (cases f)
  have ha: "h' a = relink (h a) c q" using rl by (simp add: Cons f)
  have an: "a \<notin> set (refs sb)" "a \<notin> set (lefts C' @ rights C')"
    using d by (cases dr; auto simp: Cons f)+
  have sb: "\<forall>x \<in> set (refs sb). h' x = h x"
    using same an by (cases dr) (auto simp: Cons f)
  have rest: "\<forall>x \<in> set (lefts C' @ rights C'). h' x = h x"
    using same an by (cases dr) (auto simp: Cons f)
  from c have "ctx h rt a (max ho (ht sb) + 1) C'" by (simp add: Cons f)
  then have up: "ctx h' rt a (max ho (ht sb) + 1) C'" using rest by (rule ctx_frame)
  show ?thesis
  proof (cases dr)
    case Lft
    with c have "left (h a) = Some c" by (simp add: Cons f)
    then have "left (h' a) = Some q" "right (h' a) = right (h a)" "parent (h' a) = parent (h a)"
      by (simp_all add: ha relink_def)
    with c up Lft tree_ok_cong [OF sb] rt' show ?thesis by (simp add: Cons f)
  next
    case Rgt
    with c have r: "right (h a) = Some c" and w: "tree_ok h (Some a) (left (h a)) sb"
      by (simp_all add: Cons f)
    have "left (h a) \<noteq> Some c"
    proof
      assume "left (h a) = Some c"
      with w have "c \<in> set (refs sb)" using tree_ok_root by simp
      with cn Rgt show False by (simp add: Cons f)
    qed
    with r have "right (h' a) = Some q" "left (h' a) = left (h a)" "parent (h' a) = parent (h a)"
      by (simp_all add: ha relink_def)
    with c up Rgt tree_ok_cong [OF sb] rt' show ?thesis by (simp add: Cons f)
  qed
qed

text \<open>One node of the loop, and the node above it when a rotation put one there.\<close>

lemma rebalance_settle:
  assumes wl: "tree_ok (heap s) (Some a) (left (heap s a)) l"
    and wr: "tree_ok (heap s) (Some a) (right (heap s a)) r"
    and bl: "bal l" and br: "bal r"
    and imb: "\<bar>ht l - ht r\<bar> \<le> 2"
    and dist: "distinct (refs l @ a # refs r)"
    and link: "\<And>p. parent (heap s a) = Some p \<Longrightarrow> p \<notin> set (refs l @ a # refs r)"
    and rootp: "parent (heap s a) = None \<Longrightarrow> root s = Some a"
  shows "\<exists>s' q t'. rebalance s (Some a) = rebalance s' (parent (heap s a))
      \<and> tree_ok (heap s') (parent (heap s a)) (Some q) t' \<and> bal t'
      \<and> refs t' = refs l @ a # refs r
      \<and> (\<bar>ht l - ht r\<bar> \<le> 1 \<longrightarrow> ht t' = ht (Br l a r))
      \<and> (\<not> \<bar>ht l - ht r\<bar> \<le> 1 \<longrightarrow> ht t' = max (ht l) (ht r) \<or> ht t' = max (ht l) (ht r) + 1)
      \<and> frame_ok s s' (set (refs l @ a # refs r)) a q"
proof -
  let ?par = "parent (heap s a)"
  let ?S = "set (refs l @ a # refs r)"
  from rebalance_node_tree_ok [OF assms] obtain s1 q t1 where
    st: "rebalance_node s a = Inr s1"
    and w1: "tree_ok (heap s1) ?par (Some q) t1" and b1: "bal t1"
    and rf: "refs t1 = refs l @ a # refs r"
    and h1: "\<bar>ht l - ht r\<bar> \<le> 1 \<longrightarrow> ht t1 = ht (Br l a r)"
    and h2: "\<not> \<bar>ht l - ht r\<bar> \<le> 1 \<longrightarrow> ht t1 = max (ht l) (ht r) \<or> ht t1 = max (ht l) (ht r) + 1"
    and qa: "\<bar>ht l - ht r\<bar> \<le> 1 \<longrightarrow> q = a"
    and pq: "\<not> \<bar>ht l - ht r\<bar> \<le> 1 \<longrightarrow> parent (heap s1 a) = Some q"
    and fo: "frame_ok s s1 ?S a q"
    by blast
  have r1: "rebalance s (Some a) = rebalance s1 (parent (heap s1 a))"
    by (subst rebalance.simps) (simp add: st)
  show ?thesis
  proof (cases "\<bar>ht l - ht r\<bar> \<le> 1")
    case True
    with qa w1 have "parent (heap s1 a) = ?par" by (cases t1) auto
    with r1 have "rebalance s (Some a) = rebalance s1 ?par" by simp
    with w1 b1 rf h1 h2 fo show ?thesis
      by (intro exI [of _ s1] exI [of _ q] exI [of _ t1]) simp
  next
    case False
    obtain ql qr where t1: "t1 = Br ql q qr" using w1 by (cases t1) auto
    from w1 have wl1: "tree_ok (heap s1) (Some q) (left (heap s1 q)) ql"
      and wr1: "tree_ok (heap s1) (Some q) (right (heap s1 q)) qr"
      and p1: "parent (heap s1 q) = ?par"
      by (simp_all add: t1 tree_ok_Br)
    from b1 have bq: "bal ql" "bal qr" "\<bar>ht ql - ht qr\<bar> \<le> 1" by (simp_all add: t1)
    then have imb1: "\<bar>ht ql - ht qr\<bar> \<le> 2" by simp
    have d1: "distinct (refs ql @ q # refs qr)" using dist rf by (simp add: t1)
    have S1: "set (refs ql @ q # refs qr) = ?S" using rf by (simp add: t1)
    have lk1: "p \<notin> set (refs ql @ q # refs qr)" if "parent (heap s1 q) = Some p" for p
      using link [of p] that p1 S1 by simp
    have rp1: "root s1 = Some q" if "parent (heap s1 q) = None"
      using fo that p1 by (simp add: frame_ok_def)
    from rebalance_node_tree_ok [OF wl1 wr1 bq(1,2) imb1 d1 lk1 rp1] bq(3) obtain s2 t2 where
      st2: "rebalance_node s1 q = Inr s2"
      and w2: "tree_ok (heap s2) ?par (Some q) t2" and b2: "bal t2"
      and rf2: "refs t2 = refs ql @ q # refs qr"
      and h3: "ht t2 = ht (Br ql q qr)"
      and fo2: "frame_ok s1 s2 (set (refs ql @ q # refs qr)) q q"
      by (auto simp: p1)
    have "rebalance s1 (Some q) = rebalance s2 (parent (heap s2 q))"
      by (subst rebalance.simps) (simp add: st2)
    moreover have "parent (heap s2 q) = ?par" using w2 by (cases t2) auto
    ultimately have r2: "rebalance s (Some a) = rebalance s2 ?par"
      using r1 pq False by simp
    have "frame_ok s s2 ?S a q"
      using fo fo2 unfolding frame_ok_def S1 p1
      by (auto simp: relink_same split: option.splits)
    moreover have "refs t2 = refs l @ a # refs r" using rf rf2 by (simp add: t1)
    moreover have "ht t2 = max (ht l) (ht r) \<or> ht t2 = max (ht l) (ht r) + 1"
      using h2 h3 False by (simp add: t1)
    ultimately show ?thesis using r2 w2 b2 False
      by (intro exI [of _ s2] exI [of _ q] exI [of _ t2]) simp
  qed
qed

lemma cpar_in: "cpar C = Some p \<Longrightarrow> p \<in> set (lefts C @ rights C)"
proof (cases C)
  case Nil
  assume "cpar C = Some p"
  with Nil show ?thesis by simp
next
  case (Cons f C')
  assume p: "cpar C = Some p"
  obtain d a sb where "f = (d, a, sb)" by (cases f)
  with Cons p show ?thesis by (cases d) auto
qed

lemma ctx_root: "ctx h rt c ho C \<Longrightarrow> cpar C = None \<Longrightarrow> rt = Some c"
  by (cases C) auto

lemma rebalance_up:
  assumes "tree_ok (heap s) (cpar C) (Some q) t" and "bal t" and "ht t = ho \<or> ht t = ho + 1"
    and "ctx (heap s) (root s) q ho C" and "distinct (lefts C @ refs t @ rights C)"
  shows "\<exists>s' T. rebalance s (cpar C) = Some (Inr s')
      \<and> tree_ok (heap s') None (root s') T \<and> bal T
      \<and> refs T = lefts C @ refs t @ rights C
      \<and> (\<forall>x. key (heap s' x) = key (heap s x))
      \<and> data s' = data s \<and> next_ref s' = next_ref s"
  using assms
proof (induction C arbitrary: s q t ho)
  case Nil
  then have "root s = Some q" by simp
  moreover have "rebalance s None = Some (Inr s)" by (subst rebalance.simps) simp
  ultimately show ?case using Nil by (intro exI [of _ s] exI [of _ t]) simp
next
  case (Cons f C)
  obtain dr a sb where f: "f = (dr, a, sb)" by (cases f)
  let ?h = "heap s"
  let ?ho = "max ho (ht sb) + 1"
  from Cons.prems(4) have bsb: "bal sb" and hsb: "\<bar>ho - ht sb\<bar> \<le> 1"
    and pa: "parent (?h a) = cpar C" and up: "ctx ?h (root s) a ?ho C"
    by (simp_all add: f)
  from Cons.prems(1) have wq: "tree_ok ?h (Some a) (Some q) t" by (simp add: f)
  define l where "l = (case dr of Lft \<Rightarrow> t | Rgt \<Rightarrow> sb)"
  define r where "r = (case dr of Lft \<Rightarrow> sb | Rgt \<Rightarrow> t)"
  have wl: "tree_ok ?h (Some a) (left (?h a)) l" and wr: "tree_ok ?h (Some a) (right (?h a)) r"
    using Cons.prems(4) wq by (cases dr; simp add: f l_def r_def)+
  have bl: "bal l" and br: "bal r" using bsb Cons.prems(2) by (cases dr; simp add: l_def r_def)+
  have imb: "\<bar>ht l - ht r\<bar> \<le> 2"
    using hsb Cons.prems(3) by (cases dr) (auto simp: l_def r_def)
  have lst: "lefts (f # C) @ refs t @ rights (f # C) = lefts C @ (refs l @ a # refs r) @ rights C"
    by (cases dr) (simp_all add: f l_def r_def)
  with Cons.prems(5) have dall: "distinct (lefts C @ (refs l @ a # refs r) @ rights C)" by simp
  then have dist: "distinct (refs l @ a # refs r)" by auto
  have link: "p \<notin> set (refs l @ a # refs r)" if "parent (?h a) = Some p" for p
    using cpar_in [of C p] that pa dall by auto
  have rootp: "root s = Some a" if "parent (?h a) = None"
    using ctx_root [OF up] that pa by simp
  from rebalance_settle [OF wl wr bl br imb dist link rootp] obtain s1 q1 t1 where
    r1: "rebalance s (Some a) = rebalance s1 (cpar C)"
    and w1: "tree_ok (heap s1) (cpar C) (Some q1) t1" and b1: "bal t1"
    and rf: "refs t1 = refs l @ a # refs r"
    and h1: "\<bar>ht l - ht r\<bar> \<le> 1 \<longrightarrow> ht t1 = ht (Br l a r)"
    and h2: "\<not> \<bar>ht l - ht r\<bar> \<le> 1 \<longrightarrow> ht t1 = max (ht l) (ht r) \<or> ht t1 = max (ht l) (ht r) + 1"
    and fo: "frame_ok s s1 (set (refs l @ a # refs r)) a q1"
    by (auto simp: pa)
  have hh: "ht t1 = ?ho \<or> ht t1 = ?ho + 1"
    using h1 h2 hsb Cons.prems(3) by (cases dr) (auto simp: l_def r_def)
  have c1: "ctx (heap s1) (root s1) q1 ?ho C"
  proof (rule ctx_relink [OF up])
    show "a \<notin> set (lefts C @ rights C)" using dall by auto
    show "distinct (lefts C @ rights C)" using dall by auto
    show "heap s1 x = ?h x" if "x \<in> set (lefts C @ rights C)" "Some x \<noteq> cpar C" for x
    proof -
      from that(1) dall have "x \<notin> set (refs l @ a # refs r)" by auto
      with fo that(2) pa show ?thesis by (simp add: frame_ok_def)
    qed
    show "heap s1 p = relink (?h p) a q1" if "cpar C = Some p" for p
      using fo that pa by (simp add: frame_ok_def)
    show "root s1 = (case cpar C of None \<Rightarrow> Some q1 | Some p \<Rightarrow> root s)"
      using fo pa by (simp add: frame_ok_def)
  qed
  have d1: "distinct (lefts C @ refs t1 @ rights C)" using dall rf by auto
  from Cons.IH [OF w1 b1 hh c1 d1] obtain s' T where
    r2: "rebalance s1 (cpar C) = Some (Inr s')"
    and wT: "tree_ok (heap s') None (root s') T" and bT: "bal T"
    and rT: "refs T = lefts C @ refs t1 @ rights C"
    and kT: "\<forall>x. key (heap s' x) = key (heap s1 x)"
    and dT: "data s' = data s1" "next_ref s' = next_ref s1"
    by blast
  have "rebalance s (cpar (f # C)) = Some (Inr s')" using r1 r2 by (simp add: f)
  moreover have "refs T = lefts (f # C) @ refs t @ rights (f # C)" using rT rf lst by simp
  moreover have "\<forall>x. key (heap s' x) = key (heap s x)" using kT fo by (simp add: frame_ok_def)
  moreover have "data s' = data s" "next_ref s' = next_ref s" using dT fo by (simp_all add: frame_ok_def)
  ultimately show ?case using wT bT by (intro exI [of _ s'] exI [of _ T]) simp
qed

lemma kwp_lt_le_trans: "kwp_lt a b \<Longrightarrow> kwp_le b c \<Longrightarrow> kwp_lt a c"
  by (auto simp: kwp_lt_def kwp_le_def)

lemma kwp_le_lt_trans: "kwp_le a b \<Longrightarrow> kwp_lt b c \<Longrightarrow> kwp_lt a c"
  by (auto simp: kwp_lt_def kwp_le_def)

lemma kwp_le_trans: "kwp_le a b \<Longrightarrow> kwp_le b c \<Longrightarrow> kwp_le a c"
  by (auto simp: kwp_le_def)

lemma kwp_not_lt: "(\<not> kwp_lt a b) = kwp_le b a"
  by (auto simp: kwp_lt_def kwp_le_def)

lemma kwp_lt_imp_le: "kwp_lt a b \<Longrightarrow> kwp_le a b"
  by (auto simp: kwp_lt_def kwp_le_def)

lemma add_descend_ctx:
  assumes "tree_ok h (cpar C0) (Some r) t" and "bal t" and "ctx h rt r (ht t) C0"
    and "distinct (lefts C0 @ refs t @ rights C0)"
    and "new \<notin> set (lefts C0 @ refs t @ rights C0)"
    and nf: "left (h new) = None" "right (h new) = None"
    and "\<forall>x \<in> set (lefts C0). \<not> kwp_lt k (key (h x))"
    and "\<forall>x \<in> set (rights C0). kwp_lt k (key (h x))"
    and "sorted_wrt kwp_le (map (\<lambda>x. key (h x)) (refs t))"
  shows "\<exists>h1 C. add_descend h k new r = Some h1
      \<and> ctx h1 rt new (- 1) C \<and> parent (h1 new) = cpar C
      \<and> left (h1 new) = None \<and> right (h1 new) = None
      \<and> lefts C @ rights C = lefts C0 @ refs t @ rights C0
      \<and> (\<forall>x. key (h1 x) = key (h x))
      \<and> (\<forall>x \<in> set (lefts C). \<not> kwp_lt k (key (h x)))
      \<and> (\<forall>x \<in> set (rights C). kwp_lt k (key (h x)))"
  using assms(1-5,8-10)
proof (induction t arbitrary: r C0)
  case Tip
  then show ?case by simp
next
  case (Br tl a tr)
  note w = Br.prems(1) and b = Br.prems(2) and c = Br.prems(3) and d = Br.prems(4)
    and nn = Br.prems(5) and kl = Br.prems(6) and kr = Br.prems(7) and srt = Br.prems(8)
  from w have ar: "a = r" and pr: "parent (h r) = cpar C0"
    and wl: "tree_ok h (Some r) (left (h r)) tl" and wr: "tree_ok h (Some r) (right (h r)) tr"
    by simp_all
  from b have bl: "bal tl" and br: "bal tr" and bb: "\<bar>ht tl - ht tr\<bar> \<le> 1" by simp_all
  from c have cup: "ctx h rt r (max (ht tl) (ht tr) + 1) C0" by simp
  from srt have sl: "sorted_wrt kwp_le (map (\<lambda>x. key (h x)) (refs tl))"
    and sr: "sorted_wrt kwp_le (map (\<lambda>x. key (h x)) (refs tr))"
    and lo: "\<forall>x \<in> set (refs tl). kwp_le (key (h x)) (key (h r))"
    and hi: "\<forall>x \<in> set (refs tr). kwp_le (key (h r)) (key (h x))"
    by (auto simp: sorted_wrt_append ar)
  from nn have nr: "new \<noteq> r" by (simp add: ar)
  show ?case
  proof (cases "kwp_lt k (key (h r))")
    case True
    let ?C = "(Lft, r, tr) # C0"
    have kr': "\<forall>x \<in> set (rights ?C). kwp_lt k (key (h x))"
      using kr True hi kwp_lt_le_trans by auto
    have kl': "\<forall>x \<in> set (lefts ?C). \<not> kwp_lt k (key (h x))" using kl by simp
    show ?thesis
    proof (cases "left (h r)")
      case None
      with wl have tl: "tl = Tip" by (simp add: tree_ok_None)
      define h1 where "h1 = h(r := (h r)\<lparr>left := Some new\<rparr>)"
      define h2 where "h2 = h1(new := (h1 new)\<lparr>parent := Some r\<rparr>)"
      have ad: "add_descend h k new r = Some h2"
        by (subst add_descend.simps) (simp add: True None h1_def h2_def Let_def)
      have same: "h2 x = h x" if "x \<noteq> r" "x \<noteq> new" for x
        using that by (simp add: h1_def h2_def)
      have h2r: "left (h2 r) = Some new" "right (h2 r) = right (h r)" "parent (h2 r) = parent (h r)"
        using nr by (simp_all add: h1_def h2_def)
      have h2n: "left (h2 new) = None" "right (h2 new) = None" "parent (h2 new) = Some r"
        using nr nf by (simp_all add: h1_def h2_def)
      have wtr: "tree_ok h2 (Some r) (right (h r)) tr"
      proof -
        have "\<forall>x \<in> set (refs tr). h2 x = h x"
        proof
          fix x assume "x \<in> set (refs tr)"
          with d nn have "x \<noteq> r" "x \<noteq> new" by (auto simp: ar)
          then show "h2 x = h x" by (rule same)
        qed
        from tree_ok_cong [OF this] wr show ?thesis by simp
      qed
      have cu2: "ctx h2 rt r (max (- 1) (ht tr) + 1) C0"
      proof (rule ctx_frame)
        show "ctx h rt r (max (- 1) (ht tr) + 1) C0" using cup tl by simp
        show "\<forall>x \<in> set (lefts C0 @ rights C0). h2 x = h x"
        proof
          fix x assume "x \<in> set (lefts C0 @ rights C0)"
          with d nn have "x \<noteq> r" "x \<noteq> new" by (auto simp: ar)
          then show "h2 x = h x" by (rule same)
        qed
      qed
      have "ctx h2 rt new (- 1) ?C"
        using h2r wtr br bb cu2 pr by (simp add: tl)
      moreover have "lefts ?C @ rights ?C = lefts C0 @ refs (Br tl a tr) @ rights C0"
        by (simp add: tl ar)
      moreover have "\<forall>x. key (h2 x) = key (h x)" by (simp add: h1_def h2_def)
      ultimately show ?thesis using ad h2n kl' kr'
        by (intro exI [of _ h2] exI [of _ ?C]) simp
    next
      case (Some lq)
      have ad: "add_descend h k new r = add_descend h k new lq"
        by (subst add_descend.simps) (simp add: True Some)
      have "\<exists>h1 C. add_descend h k new lq = Some h1
        \<and> ctx h1 rt new (- 1) C \<and> parent (h1 new) = cpar C
        \<and> left (h1 new) = None \<and> right (h1 new) = None
        \<and> lefts C @ rights C = lefts ?C @ refs tl @ rights ?C
        \<and> (\<forall>x. key (h1 x) = key (h x))
        \<and> (\<forall>x \<in> set (lefts C). \<not> kwp_lt k (key (h x)))
        \<and> (\<forall>x \<in> set (rights C). kwp_lt k (key (h x)))"
      proof (rule Br.IH(1))
        show "tree_ok h (cpar ?C) (Some lq) tl" using wl Some by simp
        show "bal tl" by (rule bl)
        show "ctx h rt lq (ht tl) ?C" using Some wr br bb pr cup by simp
        show "distinct (lefts ?C @ refs tl @ rights ?C)" using d by (simp add: ar)
        show "new \<notin> set (lefts ?C @ refs tl @ rights ?C)" using nn by (simp add: ar)
        show "\<forall>x \<in> set (lefts ?C). \<not> kwp_lt k (key (h x))" by (rule kl')
        show "\<forall>x \<in> set (rights ?C). kwp_lt k (key (h x))" by (rule kr')
        show "sorted_wrt kwp_le (map (\<lambda>x. key (h x)) (refs tl))" by (rule sl)
      qed
      then show ?thesis by (simp add: ad ar)
    qed
  next
    case False
    let ?C = "(Rgt, r, tl) # C0"
    have kl': "\<forall>x \<in> set (lefts ?C). \<not> kwp_lt k (key (h x))"
      using kl False lo kwp_lt_le_trans by auto
    have kr': "\<forall>x \<in> set (rights ?C). kwp_lt k (key (h x))" using kr by simp
    show ?thesis
    proof (cases "right (h r)")
      case None
      with wr have tr: "tr = Tip" by (simp add: tree_ok_None)
      define h1 where "h1 = h(r := (h r)\<lparr>right := Some new\<rparr>)"
      define h2 where "h2 = h1(new := (h1 new)\<lparr>parent := Some r\<rparr>)"
      have ad: "add_descend h k new r = Some h2"
        by (subst add_descend.simps) (simp add: False None h1_def h2_def Let_def)
      have same: "h2 x = h x" if "x \<noteq> r" "x \<noteq> new" for x
        using that by (simp add: h1_def h2_def)
      have h2r: "right (h2 r) = Some new" "left (h2 r) = left (h r)" "parent (h2 r) = parent (h r)"
        using nr by (simp_all add: h1_def h2_def)
      have h2n: "left (h2 new) = None" "right (h2 new) = None" "parent (h2 new) = Some r"
        using nr nf by (simp_all add: h1_def h2_def)
      have wtl: "tree_ok h2 (Some r) (left (h r)) tl"
      proof -
        have "\<forall>x \<in> set (refs tl). h2 x = h x"
        proof
          fix x assume "x \<in> set (refs tl)"
          with d nn have "x \<noteq> r" "x \<noteq> new" by (auto simp: ar)
          then show "h2 x = h x" by (rule same)
        qed
        from tree_ok_cong [OF this] wl show ?thesis by simp
      qed
      have cu2: "ctx h2 rt r (max (- 1) (ht tl) + 1) C0"
      proof (rule ctx_frame)
        show "ctx h rt r (max (- 1) (ht tl) + 1) C0" using cup tr by (simp add: max.commute)
        show "\<forall>x \<in> set (lefts C0 @ rights C0). h2 x = h x"
        proof
          fix x assume "x \<in> set (lefts C0 @ rights C0)"
          with d nn have "x \<noteq> r" "x \<noteq> new" by (auto simp: ar)
          then show "h2 x = h x" by (rule same)
        qed
      qed
      have "ctx h2 rt new (- 1) ?C"
        using h2r wtl bl bb cu2 pr by (simp add: tr)
      moreover have "lefts ?C @ rights ?C = lefts C0 @ refs (Br tl a tr) @ rights C0"
        by (simp add: tr ar)
      moreover have "\<forall>x. key (h2 x) = key (h x)" by (simp add: h1_def h2_def)
      ultimately show ?thesis using ad h2n kl' kr'
        by (intro exI [of _ h2] exI [of _ ?C]) simp
    next
      case (Some rq)
      have ad: "add_descend h k new r = add_descend h k new rq"
        by (subst add_descend.simps) (simp add: False Some)
      have "\<exists>h1 C. add_descend h k new rq = Some h1
        \<and> ctx h1 rt new (- 1) C \<and> parent (h1 new) = cpar C
        \<and> left (h1 new) = None \<and> right (h1 new) = None
        \<and> lefts C @ rights C = lefts ?C @ refs tr @ rights ?C
        \<and> (\<forall>x. key (h1 x) = key (h x))
        \<and> (\<forall>x \<in> set (lefts C). \<not> kwp_lt k (key (h x)))
        \<and> (\<forall>x \<in> set (rights C). kwp_lt k (key (h x)))"
      proof (rule Br.IH(2))
        show "tree_ok h (cpar ?C) (Some rq) tr" using wr Some by simp
        show "bal tr" by (rule br)
        show "ctx h rt rq (ht tr) ?C" using Some wl bl bb pr cup by (simp add: max.commute)
        show "distinct (lefts ?C @ refs tr @ rights ?C)" using d by (simp add: ar)
        show "new \<notin> set (lefts ?C @ refs tr @ rights ?C)" using nn by (simp add: ar)
        show "\<forall>x \<in> set (lefts ?C). \<not> kwp_lt k (key (h x))" by (rule kl')
        show "\<forall>x \<in> set (rights ?C). kwp_lt k (key (h x))" by (rule kr')
        show "sorted_wrt kwp_le (map (\<lambda>x. key (h x)) (refs tr))" by (rule sr)
      qed
      then show ?thesis by (simp add: ad ar)
    qed
  qed
qed

lemma sorted_insert:
  "sorted_wrt kwp_le (xs @ ys) \<Longrightarrow> \<forall>x \<in> set xs. kwp_le x k \<Longrightarrow> \<forall>y \<in> set ys. kwp_le k y
     \<Longrightarrow> sorted_wrt kwp_le (xs @ k # ys)"
  by (auto simp: sorted_wrt_append)

lemma add_inv:
  assumes inv: "index_inv s T"
  shows "\<exists>s' T' xs ys. add s (Some k) = Some (Inr s') \<and> index_inv s' T' \<and> data s' = data s
      \<and> map (\<lambda>x. key (heap s x)) (refs T) = xs @ ys
      \<and> map (\<lambda>x. key (heap s' x)) (refs T') = xs @ k # ys"
proof -
  define new where "new = next_ref s"
  define h0 where "h0 = (heap s)(new := BSTnode_init k)"
  define s0 where "s0 = s\<lparr>heap := h0, next_ref := new + 1\<rparr>"
  from inv have w: "tree_ok (heap s) None (root s) T" and b: "bal T" and d: "distinct (refs T)"
    and lt: "\<forall>x \<in> set (refs T). x < next_ref s"
    and srt: "sorted_wrt kwp_le (map (\<lambda>x. key (heap s x)) (refs T))"
    by (simp_all add: index_inv_def)
  from lt have nn: "new \<notin> set (refs T)" by (auto simp: new_def)
  have h0n: "left (h0 new) = None" "right (h0 new) = None" "parent (h0 new) = None"
    "key (h0 new) = k"
    by (simp_all add: h0_def BSTnode_init_def)
  have h0o: "h0 x = heap s x" if "x \<noteq> new" for x using that by (simp add: h0_def)
  have h0T: "h0 x = heap s x" if "x \<in> set (refs T)" for x using that nn by (auto simp: h0_def)
  have w0: "tree_ok h0 None (root s) T"
  proof -
    have "\<forall>x \<in> set (refs T). h0 x = heap s x" using h0T by auto
    from tree_ok_cong [OF this] w show ?thesis by simp
  qed
  have k0: "map (\<lambda>x. key (h0 x)) (refs T) = map (\<lambda>x. key (heap s x)) (refs T)"
    using h0T by (auto simp: map_eq_conv)
  have srt0: "sorted_wrt kwp_le (map (\<lambda>x. key (h0 x)) (refs T))"
    unfolding k0 by (rule srt)
  have addeq: "add s (Some k) =
      (case root s of
         None \<Rightarrow> rebalance (s0\<lparr>root := Some new\<rparr>) (Some new)
       | Some r \<Rightarrow>
           (case add_descend h0 k new r of
              None \<Rightarrow> None
            | Some h1 \<Rightarrow> rebalance (s0\<lparr>heap := h1\<rparr>) (Some new)))"
    by (simp add: add_def Let_def s0_def h0_def new_def split: option.splits)
  show ?thesis
  proof (cases "root s")
    case None
    with w have T: "T = Tip" by (simp add: tree_ok_None)
    let ?s = "s0\<lparr>root := Some new\<rparr>"
    have hs: "heap ?s = h0" by (simp add: s0_def)
    have "\<exists>s' q t'. rebalance ?s (Some new) = rebalance s' (parent (heap ?s new))
      \<and> tree_ok (heap s') (parent (heap ?s new)) (Some q) t' \<and> bal t'
      \<and> refs t' = refs Tip @ new # refs Tip
      \<and> (\<bar>ht Tip - ht Tip\<bar> \<le> 1 \<longrightarrow> ht t' = ht (Br Tip new Tip))
      \<and> (\<not> \<bar>ht Tip - ht Tip\<bar> \<le> 1 \<longrightarrow> ht t' = max (ht Tip) (ht Tip) \<or> ht t' = max (ht Tip) (ht Tip) + 1)
      \<and> frame_ok ?s s' (set (refs Tip @ new # refs Tip)) new q"
      by (rule rebalance_settle) (simp_all add: hs h0n s0_def)
    then obtain s1 q t1 where
      r1: "rebalance ?s (Some new) = rebalance s1 None"
      and w1: "tree_ok (heap s1) None (Some q) t1" and b1: "bal t1"
      and rf: "refs t1 = [new]"
      and fo: "frame_ok ?s s1 {new} new q"
      by (auto simp: hs h0n)
    have r2: "rebalance s1 None = Some (Inr s1)" by (subst rebalance.simps) simp
    from fo have rt: "root s1 = Some q" and nr: "next_ref s1 = new + 1" and dt: "data s1 = data s"
      and ky: "key (heap s1 new) = k"
      by (simp_all add: frame_ok_def hs h0n s0_def)
    have "index_inv s1 t1"
      using w1 b1 rf rt nr ky by (simp add: index_inv_def)
    moreover have "add s (Some k) = Some (Inr s1)" using addeq None r1 r2 by simp
    moreover have "map (\<lambda>x. key (heap s1 x)) (refs t1) = [] @ k # []" using rf ky by simp
    ultimately show ?thesis using dt T
      by (intro exI [of _ s1] exI [of _ t1] exI [of _ "[]"]) simp
  next
    case (Some r)
    have "\<exists>h1 C. add_descend h0 k new r = Some h1
      \<and> ctx h1 (root s) new (- 1) C \<and> parent (h1 new) = cpar C
      \<and> left (h1 new) = None \<and> right (h1 new) = None
      \<and> lefts C @ rights C = lefts [] @ refs T @ rights []
      \<and> (\<forall>x. key (h1 x) = key (h0 x))
      \<and> (\<forall>x \<in> set (lefts C). \<not> kwp_lt k (key (h0 x)))
      \<and> (\<forall>x \<in> set (rights C). kwp_lt k (key (h0 x)))"
      by (rule add_descend_ctx) (use w0 b d nn h0n srt0 Some in simp_all)
    then obtain h1 C where
      ad: "add_descend h0 k new r = Some h1"
      and c1: "ctx h1 (root s) new (- 1) C" and p1: "parent (h1 new) = cpar C"
      and n1: "left (h1 new) = None" "right (h1 new) = None"
      and lr: "lefts C @ rights C = refs T"
      and k1: "\<forall>x. key (h1 x) = key (h0 x)"
      and kl: "\<forall>x \<in> set (lefts C). \<not> kwp_lt k (key (h0 x))"
      and kr: "\<forall>x \<in> set (rights C). kwp_lt k (key (h0 x))"
      by auto
    let ?s = "s0\<lparr>heap := h1\<rparr>"
    have hs: "heap ?s = h1" "root ?s = root s" "next_ref ?s = new + 1" "data ?s = data s"
      by (simp_all add: s0_def)
    have nC: "new \<notin> set (lefts C @ rights C)" using nn lr by simp
    have dC: "distinct (lefts C @ rights C)" using d lr by simp
    have rin: "r \<in> set (refs T)" using w Some tree_ok_root by simp
    have "\<exists>s' q t'. rebalance ?s (Some new) = rebalance s' (parent (heap ?s new))
      \<and> tree_ok (heap s') (parent (heap ?s new)) (Some q) t' \<and> bal t'
      \<and> refs t' = refs Tip @ new # refs Tip
      \<and> (\<bar>ht Tip - ht Tip\<bar> \<le> 1 \<longrightarrow> ht t' = ht (Br Tip new Tip))
      \<and> (\<not> \<bar>ht Tip - ht Tip\<bar> \<le> 1 \<longrightarrow> ht t' = max (ht Tip) (ht Tip) \<or> ht t' = max (ht Tip) (ht Tip) + 1)
      \<and> frame_ok ?s s' (set (refs Tip @ new # refs Tip)) new q"
    proof (rule rebalance_settle)
      show "p \<notin> set (refs Tip @ new # refs Tip)" if "parent (heap ?s new) = Some p" for p
        using that cpar_in [of C p] nC by (auto simp: hs p1)
      show "root ?s = Some new" if "parent (heap ?s new) = None"
        using that ctx_root [OF c1] Some rin nn by (auto simp: hs p1)
    qed (simp_all add: hs n1)
    then obtain s1 q t1 where
      r1: "rebalance ?s (Some new) = rebalance s1 (cpar C)"
      and w1: "tree_ok (heap s1) (cpar C) (Some q) t1" and b1: "bal t1"
      and rf: "refs t1 = [new]" and h1: "ht t1 = 0"
      and fo: "frame_ok ?s s1 {new} new q"
      by (auto simp: hs p1)
    have c2: "ctx (heap s1) (root s1) q (- 1) C"
    proof (rule ctx_relink [OF c1 nC dC])
      show "heap s1 x = h1 x" if "x \<in> set (lefts C @ rights C)" "Some x \<noteq> cpar C" for x
        using fo that nC by (auto simp: frame_ok_def hs p1)
      show "heap s1 p = relink (h1 p) new q" if "cpar C = Some p" for p
        using fo that by (simp add: frame_ok_def hs p1)
      show "root s1 = (case cpar C of None \<Rightarrow> Some q | Some p \<Rightarrow> root s)"
        using fo by (simp add: frame_ok_def hs p1 split: option.splits)
    qed
    have d2: "distinct (lefts C @ refs t1 @ rights C)" using dC nC rf by auto
    have "ht t1 = - 1 \<or> ht t1 = - 1 + 1" using h1 by simp
    from rebalance_up [OF w1 b1 this c2 d2] obtain s' T' where
      r2: "rebalance s1 (cpar C) = Some (Inr s')"
      and wT: "tree_ok (heap s') None (root s') T'" and bT: "bal T'"
      and rT: "refs T' = lefts C @ new # rights C"
      and kT: "\<forall>x. key (heap s' x) = key (heap s1 x)"
      and dT: "data s' = data s1" "next_ref s' = next_ref s1"
      by (auto simp: rf)
    have key': "key (heap s' x) = (if x = new then k else key (heap s x))" for x
      using kT fo k1 h0n(4) h0o [of x] by (simp add: frame_ok_def hs)
    let ?xs = "map (\<lambda>x. key (heap s x)) (lefts C)"
    let ?ys = "map (\<lambda>x. key (heap s x)) (rights C)"
    have old: "map (\<lambda>x. key (heap s x)) (refs T) = ?xs @ ?ys" using lr [symmetric] by simp
    have new: "map (\<lambda>x. key (heap s' x)) (refs T') = ?xs @ k # ?ys"
      using nC by (auto simp: rT key')
    have h0C: "h0 x = heap s x" if "x \<in> set (lefts C) \<or> x \<in> set (rights C)" for x
    proof -
      from that have "x \<in> set (lefts C @ rights C)" by auto
      then show ?thesis using h0T by (simp only: lr)
    qed
    have bx: "\<forall>x \<in> set ?xs. kwp_le x k"
    proof
      fix y assume "y \<in> set ?xs"
      then obtain x where x: "x \<in> set (lefts C)" and y: "y = key (heap s x)" by auto
      from kl x have "\<not> kwp_lt k (key (h0 x))" by simp
      with h0C [of x] x y show "kwp_le y k" by (simp add: kwp_not_lt)
    qed
    have by': "\<forall>y \<in> set ?ys. kwp_le k y"
    proof
      fix y assume "y \<in> set ?ys"
      then obtain x where x: "x \<in> set (rights C)" and y: "y = key (heap s x)" by auto
      from kr x have "kwp_lt k (key (h0 x))" by simp
      with h0C [of x] x y show "kwp_le k y" by (simp add: kwp_lt_imp_le)
    qed
    have "sorted_wrt kwp_le (?xs @ k # ?ys)"
      using srt bx by' unfolding old by (rule sorted_insert)
    moreover have "distinct (refs T')" using dC nC by (auto simp: rT)
    moreover have "\<forall>x \<in> set (refs T'). x < next_ref s'"
    proof
      fix x assume "x \<in> set (refs T')"
      then have "x = new \<or> x \<in> set (refs T)" using lr [symmetric] by (auto simp: rT)
      moreover have "next_ref s' = new + 1" using dT fo by (simp add: frame_ok_def hs)
      ultimately show "x < next_ref s'" using lt by (auto simp: new_def less_Suc_eq)
    qed
    ultimately have "index_inv s' T'" using wT bT new by (simp add: index_inv_def)
    moreover have "add s (Some k) = Some (Inr s')" using addeq Some ad r1 r2 by simp
    moreover have "data s' = data s" using dT fo by (simp add: frame_ok_def hs)
    ultimately show ?thesis using old new
      by (intro exI [of _ s'] exI [of _ T'] exI [of _ ?xs] exI [of _ ?ys]) simp
  qed
qed

lemma ht_le_length: "ht t + 1 \<le> int (length (refs t))"
  by (induction t) auto

lemma inorder_from_tree_ok:
  "tree_ok h par q t \<Longrightarrow> ht t + 1 \<le> int fuel \<Longrightarrow> inorder_from fuel h q = refs t"
proof (induction fuel arbitrary: par q t)
  case 0
  have "t = Tip"
  proof (cases t)
    case (Br l a r)
    with "0.prems"(2) ht_Br_ge [of l a r] show ?thesis by simp
  qed simp
  then show ?case by simp
next
  case (Suc fuel)
  show ?case
  proof (cases t)
    case Tip
    with Suc.prems show ?thesis by (simp add: tree_ok_Tip)
  next
    case (Br l a r)
    with Suc.prems have q: "q = Some a" and wl: "tree_ok h (Some a) (left (h a)) l"
      and wr: "tree_ok h (Some a) (right (h a)) r"
      by (simp_all add: tree_ok_Br)
    from Suc.prems(2) Br have "ht l + 1 \<le> int fuel" "ht r + 1 \<le> int fuel" by auto
    with wl wr have "inorder_from fuel h (left (h a)) = refs l"
      "inorder_from fuel h (right (h a)) = refs r"
      using Suc.IH by blast+
    with q Br show ?thesis by simp
  qed
qed

lemma index_inv_init: "index_inv RangeIndex_init Tip"
  by (simp add: index_inv_def RangeIndex_init_def)

lemma run_adds:
  "index_inv s T \<Longrightarrow>
     \<exists>s' T'. run_ops s (map Add ks) = Some (Inr s') \<and> index_inv s' T' \<and> data s' = data s
       \<and> set (map (\<lambda>x. key (heap s' x)) (refs T')) = set (map (\<lambda>x. key (heap s x)) (refs T)) \<union> set ks
       \<and> length (refs T') = length (refs T) + length ks"
proof (induction ks arbitrary: s T)
  case Nil
  then show ?case by (intro exI [of _ s] exI [of _ T]) simp
next
  case (Cons k ks)
  from add_inv [OF Cons.prems, of k] obtain s1 T1 xs ys where
    a: "add s (Some k) = Some (Inr s1)" and i1: "index_inv s1 T1" and d1: "data s1 = data s"
    and old: "map (\<lambda>x. key (heap s x)) (refs T) = xs @ ys"
    and new: "map (\<lambda>x. key (heap s1 x)) (refs T1) = xs @ k # ys"
    by blast
  from Cons.IH [OF i1] obtain s' T' where
    r: "run_ops s1 (map Add ks) = Some (Inr s')" and i': "index_inv s' T'"
    and d': "data s' = data s1"
    and st: "set (map (\<lambda>x. key (heap s' x)) (refs T')) = set (map (\<lambda>x. key (heap s1 x)) (refs T1)) \<union> set ks"
    and ln: "length (refs T') = length (refs T1) + length ks"
    by blast
  have "length (map (\<lambda>x. key (heap s1 x)) (refs T1)) = length (map (\<lambda>x. key (heap s x)) (refs T)) + 1"
    unfolding old new by simp
  then have l1: "length (refs T1) = length (refs T) + 1" by simp
  have "set (map (\<lambda>x. key (heap s' x)) (refs T')) = set (map (\<lambda>x. key (heap s x)) (refs T)) \<union> set (k # ks)"
    unfolding st old new by auto
  with a r i' d' d1 ln l1 show ?case
    by (intro exI [of _ s'] exI [of _ T']) simp
qed

lemma sorted_strict:
  "sorted_wrt kwp_le zs \<Longrightarrow> distinct (map key_id zs) \<Longrightarrow> sorted_wrt kwp_lt zs"
proof (induction zs)
  case Nil
  show ?case by simp
next
  case (Cons z zs)
  have "kwp_lt z y" if "y \<in> set zs" for y
  proof -
    from Cons.prems that have "kwp_le z y" "key_id z \<noteq> key_id y" by auto
    then show ?thesis by (auto simp: kwp_le_def kwp_lt_def key_id_def)
  qed
  with Cons show ?case by simp
qed

text \<open>
  C1, as the code has it. After any sequence of \<^verbatim>\<open>add\<close> calls on a new index, every call
  returns, and the nodes reachable from the root form a tree in which the parent links agree
  with the child links, every cached height is the height of the node's subtree, the heights
  of the left and right subtree of every node differ by at most 1, and every cached
  \<^verbatim>\<open>number_below\<close> is the number of nodes of the left subtree plus the number of nodes of
  the right subtree (the nodes below the node, one less than the size of its subtree). The
  in-order traversal holds the keys added, ascending for \<^verbatim>\<open>__le__\<close>, and strictly ascending
  when no two added keys agree in both coordinate and wire id.
\<close>

theorem add_keeps_avl:
  "\<exists>s T. run_ops RangeIndex_init (map Add ks) = Some (Inr s)
     \<and> tree_ok (heap s) None (root s) T \<and> bal T
     \<and> inorder_from (Suc (length ks)) (heap s) (root s) = refs T
     \<and> sorted_wrt kwp_le (inorder_keys (Suc (length ks)) s)
     \<and> set (inorder_keys (Suc (length ks)) s) = set ks
     \<and> length (inorder_keys (Suc (length ks)) s) = length ks
     \<and> (distinct (map key_id ks) \<longrightarrow> sorted_wrt kwp_lt (inorder_keys (Suc (length ks)) s))"
proof -
  from run_adds [OF index_inv_init, of ks] obtain s T where
    r: "run_ops RangeIndex_init (map Add ks) = Some (Inr s)" and i: "index_inv s T"
    and st: "set (map (\<lambda>x. key (heap s x)) (refs T)) = set ks"
    and ln: "length (refs T) = length ks"
    by auto
  from i have w: "tree_ok (heap s) None (root s) T" and b: "bal T"
    and srt: "sorted_wrt kwp_le (map (\<lambda>x. key (heap s x)) (refs T))"
    by (simp_all add: index_inv_def)
  have "ht T + 1 \<le> int (Suc (length ks))" using ht_le_length [of T] ln by simp
  from inorder_from_tree_ok [OF w this] have io: "inorder_from (Suc (length ks)) (heap s) (root s) = refs T" .
  then have ik: "inorder_keys (Suc (length ks)) s = map (\<lambda>x. key (heap s x)) (refs T)"
    by (simp add: inorder_keys_def)
  have strict: "sorted_wrt kwp_lt (inorder_keys (Suc (length ks)) s)" if "distinct (map key_id ks)"
  proof -
    let ?zs = "inorder_keys (Suc (length ks)) s"
    have "set ?zs = set ks" using st ik by simp
    then have "set (map key_id ?zs) = set (map key_id ks)" by simp
    then have "card (set (map key_id ?zs)) = card (set (map key_id ks))" by simp
    also have "\<dots> = length ks" using that distinct_card [of "map key_id ks"] by simp
    also have "\<dots> = length (map key_id ?zs)" using ln ik by simp
    finally have "distinct (map key_id ?zs)" by (rule card_distinct)
    with srt ik show ?thesis using sorted_strict by simp
  qed
  show ?thesis using r w b io srt st ln strict
    by (intro exI [of _ s] exI [of _ T]) (simp add: ik)
qed

theorem add_keeps_avl_witness:
  "\<exists>s. run_ops RangeIndex_init (map Add [example_key 2 0, example_key 1 1, example_key 3 2])
        = Some (Inr s)
     \<and> sorted_wrt kwp_lt (inorder_keys 4 s)"
proof -
  let ?ks = "[example_key 2 0, example_key 1 1, example_key 3 2]"
  have dk: "distinct (map key_id ?ks)"
    by (simp add: key_id_def example_key_def)
  have e: "Suc (length ?ks) = 4" by simp
  from add_keeps_avl [of ?ks] obtain s where
    r: "run_ops RangeIndex_init (map Add ?ks) = Some (Inr s)"
    and "distinct (map key_id ?ks) \<longrightarrow> sorted_wrt kwp_lt (inorder_keys (Suc (length ?ks)) s)"
    by blast
  with dk have "sorted_wrt kwp_lt (inorder_keys (Suc (length ?ks)) s)" by blast
  then have "sorted_wrt kwp_lt (inorder_keys 4 s)" by (simp only: e)
  with r show ?thesis by blast
qed

text \<open>
  C1 as stated fails. After one \<^verbatim>\<open>add\<close> the cached count of the only node is 0, not
  \<open>1 + 0 + 0\<close>. After \<^verbatim>\<open>add\<close> of the keys 2, 1, 3, 4 and \<^verbatim>\<open>pop_node\<close> of key 3 the
  in-order traversal is 4, 2, 3, which is not ascending.
\<close>

theorem invariants_counterexample:
  "observe root_number_below
     (run_ops RangeIndex_init [Add (example_key 2 0)]) = Some (Inr (Some (Some 0)))
   \<and> observe (inorder_keys 4)
       (run_ops RangeIndex_init
          [Add (example_key 2 0), Add (example_key 1 1), Add (example_key 3 2), Add (example_key 4 3),
           Pop (example_key 3 2)])
     = Some (Inr [example_key 4 3, example_key 2 0, example_key 3 2])
   \<and> \<not> kwp_lt (example_key 4 3) (example_key 2 0)"
  by code_simp

end
